theory Spec2Isabelle
  imports Main "HOL-Library.Sublist"
begin

section \<open>JavaScript values\<close>

text \<open>
  The middleware of \<^verbatim>\<open>client.ts\<close> receives protocol payloads typed \<^verbatim>\<open>any\<close> and
  inspects them dynamically, so a payload is a JSON value. Numbers are the integers
  (JSON numbers with a fraction are outside the model), strings are byte strings, and an
  object lists each of its properties once.
\<close>

datatype js =
    JUndefined
  | JNull
  | JBool bool
  | JNum int
  | JStr string
  | JArr "js list"
  | JObj "(string \<times> js) list"

text \<open>Property access \<^verbatim>\<open>value.name\<close> on a value known to be neither null nor undefined.\<close>

fun field :: "js \<Rightarrow> string \<Rightarrow> js" where
  "field (JObj props) name = (case map_of props name of Some v \<Rightarrow> v | None \<Rightarrow> JUndefined)"
| "field _ name = JUndefined"

text \<open>JavaScript truthiness, as used by \<^verbatim>\<open>if (x)\<close>, \<^verbatim>\<open>!x\<close> and \<^verbatim>\<open>x && y\<close>.\<close>

fun truthy :: "js \<Rightarrow> bool" where
  "truthy JUndefined = False"
| "truthy JNull = False"
| "truthy (JBool b) = b"
| "truthy (JNum n) = (n \<noteq> 0)"
| "truthy (JStr s) = (s \<noteq> [])"
| "truthy (JArr _) = True"
| "truthy (JObj _) = True"

text \<open>
  Key equality of a JavaScript \<^verbatim>\<open>Map\<close> (SameValueZero): primitives are compared by
  value, objects and arrays by reference. Every element of a deserialised response is a
  fresh object, so two object-valued keys are never the same key.
\<close>

fun sameValueZero :: "js \<Rightarrow> js \<Rightarrow> bool" where
  "sameValueZero (JArr _) _ = False"
| "sameValueZero (JObj _) _ = False"
| "sameValueZero a b = (a = b)"

text \<open>\<^verbatim>\<open>Is.string\<close> and \<^verbatim>\<open>Is.typedArray\<close> of \<^verbatim>\<open>vscode-languageclient/lib/utils/is\<close>.\<close>

fun Is_string :: "js \<Rightarrow> bool" where
  "Is_string (JStr _) = True"
| "Is_string _ = False"

fun Is_typedArray :: "js \<Rightarrow> (js \<Rightarrow> bool) \<Rightarrow> bool" where
  "Is_typedArray (JArr xs) check = list_all check xs"
| "Is_typedArray _ check = False"

text \<open>A value that is \<^verbatim>\<open>undefined\<close>, \<^verbatim>\<open>null\<close> or present.\<close>

datatype 'a maybe = JsUndefined | JsNull | Value 'a

text \<open>The outcome of a promise: rejected with an error or fulfilled with a value.\<close>

datatype ('e, 'a) promise = Rejected 'e | Fulfilled 'a

text \<open>What the callbacks of this file can throw.\<close>

datatype error = AssertionError string | TypeError

text \<open>
  Modelled from the spec: \<^verbatim>\<open>assert\<close> is imported from \<^verbatim>\<open>./util\<close>, which is not among
  the sources. The spec calls a failed check an assertion failure that aborts loudly:
  a false condition throws, carrying the explanation.
\<close>

definition assert :: "bool \<Rightarrow> string \<Rightarrow> error + unit" where
  "assert condition explanation = (if condition then Inr () else Inl (AssertionError explanation))"

section \<open>Editor-side types\<close>

text \<open>\<^verbatim>\<open>vscode.Command\<close>: a command name, a title and the argument list.\<close>

record Command =
  cmd_command :: string
  cmd_title :: js
  cmd_arguments :: "js list"

text \<open>\<^verbatim>\<open>vscode.CodeAction\<close>; a field that was never assigned is \<^verbatim>\<open>undefined\<close>.\<close>

record CodeAction =
  act_title :: js
  act_kind :: js
  act_diagnostics :: js
  act_edit :: js
  act_command :: "Command option"
  act_isPreferred :: js

text \<open>\<^verbatim>\<open>new vscode.CodeAction(title)\<close>.\<close>

definition new_CodeAction :: "js \<Rightarrow> CodeAction" where
  "new_CodeAction title =
     \<lparr>act_title = title, act_kind = JUndefined, act_diagnostics = JUndefined,
      act_edit = JUndefined, act_command = None, act_isPreferred = JUndefined\<rparr>"

text \<open>
  The functions of the protocol libraries that the code-action pass calls and whose code
  is outside the repository: the type guards \<^verbatim>\<open>lc.CodeAction.is\<close> and
  \<^verbatim>\<open>lc.Diagnostic.is\<close>, and the converter \<^verbatim>\<open>protocol2CodeConverter.asCodeAction\<close>.
  They are parameters of the model. A type guard holds of objects only, so the property
  reads that follow it are defined.
\<close>

record lib =
  CodeAction_is :: "js \<Rightarrow> bool"
  Diagnostic_is :: "js \<Rightarrow> bool"
  asCodeAction :: "js \<Rightarrow> CodeAction"

text \<open>
  The client object as far as this file acts on it: the calls made to
  \<^verbatim>\<open>client.logFailedRequest\<close>, oldest first.
\<close>

datatype request_type = HoverRequest | CodeActionRequest

record 'e client =
  failedRequests :: "(request_type \<times> 'e) list"

definition logFailedRequest :: "'e client \<Rightarrow> request_type \<Rightarrow> 'e \<Rightarrow> 'e client" where
  "logFailedRequest c type error = c\<lparr>failedRequests := failedRequests c @ [(type, error)]\<rparr>"

section \<open>The code-action pass\<close>

text \<open>\<^verbatim>\<open>isCodeActionWithoutEditsAndCommands\<close> (lines 183 to 189).\<close>

definition isCodeActionWithoutEditsAndCommands :: "lib \<Rightarrow> js \<Rightarrow> bool" where
  "isCodeActionWithoutEditsAndCommands L candidate =
     (truthy candidate \<and> Is_string (field candidate ''title'') \<and>
      (field candidate ''diagnostics'' = JUndefined \<or>
         Is_typedArray (field candidate ''diagnostics'') (Diagnostic_is L)) \<and>
      (field candidate ''kind'' = JUndefined \<or> Is_string (field candidate ''kind'')) \<and>
      (field candidate ''edit'' = JUndefined \<and> field candidate ''command'' = JUndefined))"

text \<open>
  The transient \<^verbatim>\<open>groups\<close> map: entries in insertion order, each with the reserved
  output index and the members collected so far.
\<close>

record GroupEntry =
  index :: nat
  items :: "CodeAction list"

type_synonym groups = "(js \<times> GroupEntry) list"

fun Map_get :: "groups \<Rightarrow> js \<Rightarrow> GroupEntry option" where
  "Map_get [] key = None"
| "Map_get ((k, e) # g) key = (if sameValueZero k key then Some e else Map_get g key)"

fun Map_set :: "groups \<Rightarrow> js \<Rightarrow> GroupEntry \<Rightarrow> groups" where
  "Map_set [] key entry = [(key, entry)]"
| "Map_set ((k, e) # g) key entry =
     (if sameValueZero k key then (k, entry) # g else (k, e) # Map_set g key entry)"

text \<open>
  \<^verbatim>\<open>entry.items.push(action)\<close> on the entry that \<^verbatim>\<open>groups.get(key)\<close> returned: the entry
  is shared with the map, so the map sees the new member.
\<close>

fun push_item :: "groups \<Rightarrow> js \<Rightarrow> CodeAction \<Rightarrow> groups" where
  "push_item [] key action = []"
| "push_item ((k, e) # g) key action =
     (if sameValueZero k key then (k, e\<lparr>items := items e @ [action]\<rparr>) # g
      else (k, e) # push_item g key action)"

text \<open>The request parameters built at lines 85 to 89 from the converted arguments.\<close>

definition CodeActionParams :: "js \<Rightarrow> js \<Rightarrow> js \<Rightarrow> js" where
  "CodeActionParams textDocument rng context =
     JObj [(''textDocument'', textDocument), (''range'', rng), (''context'', context)]"

text \<open>
  Lines 103 to 114: the display action of a stub. Its command defers the resolution to
  \<^verbatim>\<open>rust-analyzer.resolveCodeAction\<close>, with the stub's id and the request parameters.
\<close>

definition resolveAction :: "js \<Rightarrow> js \<Rightarrow> CodeAction" where
  "resolveAction params item =
     (new_CodeAction (field item ''title''))
       \<lparr>act_command := Some
          \<lparr>cmd_command = ''rust-analyzer.resolveCodeAction'',
           cmd_title = field item ''title'',
           cmd_arguments = [JObj [(''id'', field item ''id''), (''codeActionParams'', params)]]\<rparr>\<rparr>"

type_synonym pass_state = "CodeAction list \<times> groups"

text \<open>
  The body of the first loop (lines 95 to 125) on one element. When the group is new the
  entry is created with the reserved index, stored, and receives the action at once (lines
  118 to 122 in one step).
\<close>

fun processItem :: "lib \<Rightarrow> js \<Rightarrow> js \<Rightarrow> pass_state \<Rightarrow> error + pass_state" where
  "processItem L params item (result, groups) =
     (if CodeAction_is L item then
        (case assert (\<not> truthy (field item ''command''))
                ''We don't expect to receive commands in CodeActions'' of
           Inl e \<Rightarrow> Inl e
         | Inr _ \<Rightarrow> Inr (result @ [asCodeAction L item], groups))
      else
        (case assert (isCodeActionWithoutEditsAndCommands L item)
                ''We don't expect edits or commands here'' of
           Inl e \<Rightarrow> Inl e
         | Inr _ \<Rightarrow>
             (let action = resolveAction params item;
                  grp = field item ''group''
              in if truthy grp then
                   (case Map_get groups grp of
                      None \<Rightarrow>
                        Inr (result @ [action],
                             Map_set groups grp \<lparr>index = length result, items = [action]\<rparr>)
                    | Some entry \<Rightarrow> Inr (result, push_item groups grp action))
                 else Inr (result @ [action], groups))))"

text \<open>The first loop: the elements in order, stopping at the first failed assertion.\<close>

fun processItems :: "lib \<Rightarrow> js \<Rightarrow> js list \<Rightarrow> pass_state \<Rightarrow> error + pass_state" where
  "processItems L params [] st = Inr st"
| "processItems L params (item # values) st =
     (case processItem L params item st of
        Inl e \<Rightarrow> Inl e
      | Inr st' \<Rightarrow> processItems L params values st')"

text \<open>
  Line 136: one entry of a composite's payload. The source reads
  \<^verbatim>\<open>item.command!!.arguments!![0]\<close>; a member without a command would be a TypeError.
\<close>

definition groupItem :: "CodeAction \<Rightarrow> error + js" where
  "groupItem item =
     (case act_command item of
        None \<Rightarrow> Inl TypeError
      | Some c \<Rightarrow>
          Inr (JObj [(''label'', act_title item),
                     (''arguments'', (case cmd_arguments c of [] \<Rightarrow> JUndefined | a # _ \<Rightarrow> a))]))"

fun groupItems :: "CodeAction list \<Rightarrow> error + js list" where
  "groupItems [] = Inr []"
| "groupItems (item # rest) =
     (case groupItem item of
        Inl e \<Rightarrow> Inl e
      | Inr p \<Rightarrow> (case groupItems rest of Inl e \<Rightarrow> Inl e | Inr ps \<Rightarrow> Inr (p # ps)))"

text \<open>Lines 131 to 138: the composite action of a group.\<close>

definition groupAction :: "js \<Rightarrow> js list \<Rightarrow> CodeAction" where
  "groupAction grp payload =
     (new_CodeAction grp)
       \<lparr>act_command := Some
          \<lparr>cmd_command = ''rust-analyzer.applyActionGroup'',
           cmd_title = JStr [],
           cmd_arguments = [JArr payload]\<rparr>\<rparr>"

text \<open>
  The second loop (lines 127 to 141), over the entries in insertion order. The index of an
  entry is always inside the result (lemma \<open>index_in_range\<close>), so the assignment
  \<^verbatim>\<open>result[index] = ...\<close> never extends the array.
\<close>

fun collapseGroups :: "groups \<Rightarrow> CodeAction list \<Rightarrow> error + CodeAction list" where
  "collapseGroups [] result = Inr result"
| "collapseGroups ((grp, e) # rest) result =
     (if length (items e) = 1 then collapseGroups rest (result[index e := items e ! 0])
      else (case groupItems (items e) of
              Inl err \<Rightarrow> Inl err
            | Inr payload \<Rightarrow> collapseGroups rest (result[index e := groupAction grp payload])))"

text \<open>
  \<^verbatim>\<open>provideCodeActions\<close> (lines 84 to 146) as a function of the transport's answer: a
  rejection, \<^verbatim>\<open>null\<close>, or the list of raw actions. An exception thrown in the fulfilment
  callback rejects the returned promise; the rejection callback of the same \<^verbatim>\<open>then\<close> does
  not see it.
\<close>

definition provideCodeActions ::
  "lib \<Rightarrow> 'e client \<Rightarrow> js \<Rightarrow> js \<Rightarrow> js \<Rightarrow> ('e, js list option) promise
     \<Rightarrow> (error, CodeAction list maybe) promise \<times> 'e client" where
  "provideCodeActions L client textDocument rng context response =
     (let params = CodeActionParams textDocument rng context in
      case response of
        Rejected _ \<Rightarrow> (Fulfilled JsUndefined, client)
      | Fulfilled None \<Rightarrow> (Fulfilled JsUndefined, client)
      | Fulfilled (Some values) \<Rightarrow>
          (case processItems L params values ([], []) of
             Inl e \<Rightarrow> (Rejected e, client)
           | Inr (result, groups) \<Rightarrow>
               (case collapseGroups groups result of
                  Inl e \<Rightarrow> (Rejected e, client)
                | Inr out \<Rightarrow> (Fulfilled (Value out), client))))"

section \<open>Hover\<close>

text \<open>\<^verbatim>\<open>Array.prototype.join\<close> on strings.\<close>

fun join :: "string \<Rightarrow> string list \<Rightarrow> string" where
  "join sep [] = []"
| "join sep [x] = x"
| "join sep (x # y # ys) = x @ sep @ join sep (y # ys)"

text \<open>\<^verbatim>\<open>String.prototype.includes\<close>: the argument occurs as a contiguous part.\<close>

fun String_includes :: "string \<Rightarrow> string \<Rightarrow> bool" where
  "String_includes [] sub = (sub = [])"
| "String_includes (c # cs) sub = (prefix sub (c # cs) \<or> String_includes cs sub)"

text \<open>
  \<^verbatim>\<open>JSON.stringify\<close> on a JSON value. The result is \<^verbatim>\<open>undefined\<close> for \<^verbatim>\<open>undefined\<close>; an
  undefined array element is written \<^verbatim>\<open>null\<close> and an undefined property is left out.
\<close>

fun showNat :: "nat \<Rightarrow> string" where
  "showNat n = (if n < 10 then [''0123456789'' ! n]
                else showNat (n div 10) @ [''0123456789'' ! (n mod 10)])"

declare showNat.simps [simp del]

definition showInt :: "int \<Rightarrow> string" where
  "showInt i = (if i < 0 then CHR ''-'' # showNat (nat (- i)) else showNat (nat i))"

definition escapeJSON :: "char \<Rightarrow> string" where
  "escapeJSON c =
     (if c = CHR 0x22 then [CHR 0x5C, CHR 0x22]
      else if c = CHR 0x5C then [CHR 0x5C, CHR 0x5C]
      else if c = CHR 0x08 then [CHR 0x5C, CHR ''b'']
      else if c = CHR 0x0C then [CHR 0x5C, CHR ''f'']
      else if c = CHR 0x0A then [CHR 0x5C, CHR ''n'']
      else if c = CHR 0x0D then [CHR 0x5C, CHR ''r'']
      else if c = CHR 0x09 then [CHR 0x5C, CHR ''t'']
      else if (of_char c :: nat) < 32 then
        [CHR 0x5C, CHR ''u'', CHR ''0'', CHR ''0'',
         ''0123456789abcdef'' ! (of_char c div 16), ''0123456789abcdef'' ! (of_char c mod 16)]
      else [c])"

definition quoteJSON :: "string \<Rightarrow> string" where
  "quoteJSON s = CHR 0x22 # concat (map escapeJSON s) @ [CHR 0x22]"

fun JSON_stringify :: "js \<Rightarrow> string option" where
  "JSON_stringify JUndefined = None"
| "JSON_stringify JNull = Some ''null''"
| "JSON_stringify (JBool b) = Some (if b then ''true'' else ''false'')"
| "JSON_stringify (JNum n) = Some (showInt n)"
| "JSON_stringify (JStr s) = Some (quoteJSON s)"
| "JSON_stringify (JArr xs) =
     Some (''['' @ join '','' (map (\<lambda>x. case JSON_stringify x of None \<Rightarrow> ''null'' | Some t \<Rightarrow> t) xs)
           @ '']'')"
| "JSON_stringify (JObj props) =
     Some (''{'' @ join '',''
             (concat (map (\<lambda>(k, v). case JSON_stringify v of
                                       None \<Rightarrow> []
                                     | Some t \<Rightarrow> [quoteJSON k @ '':'' @ t]) props))
           @ ''}'')"

text \<open>
  \<^verbatim>\<open>encodeURIComponent\<close>: every byte outside the unreserved set is written as a percent
  sign and two upper-case hexadecimal digits.
\<close>

definition uriUnreserved :: "char \<Rightarrow> bool" where
  "uriUnreserved c =
     (c \<in> set ''ABCDEFGHIJKLMNOPQRSTUVWXYZabcdefghijklmnopqrstuvwxyz0123456789-_.!~*'()'')"

definition percentEncode :: "char \<Rightarrow> string" where
  "percentEncode c =
     (if uriUnreserved c then [c]
      else [CHR ''%'', ''0123456789ABCDEF'' ! (of_char c div 16),
            ''0123456789ABCDEF'' ! (of_char c mod 16)])"

definition encodeURIComponent :: "string \<Rightarrow> string" where
  "encodeURIComponent s = concat (map percentEncode s)"

text \<open>
  Modelled from the spec: the types \<^verbatim>\<open>CommandLink\<close> and \<^verbatim>\<open>CommandLinkGroup\<close> are
  declared in \<^verbatim>\<open>lsp_ext\<close>, which is not among the sources. The spec's data model gives a
  command link a title, a command, an optional tooltip and a sequence of arguments, and a
  group an optional title and a sequence of command links.
\<close>

record CommandLink =
  link_title :: string
  link_command :: string
  link_tooltip :: "string option"
  link_arguments :: "js list"

record CommandLinkGroup =
  group_title :: "string option"
  group_commands :: "CommandLink list"

text \<open>\<^verbatim>\<open>vscode.MarkdownString\<close> and \<^verbatim>\<open>vscode.Hover\<close>.\<close>

record MarkdownString =
  md_value :: string
  isTrusted :: bool

record Hover =
  contents :: "MarkdownString list"

text \<open>
  \<^verbatim>\<open>toTrusted\<close> (lines 10 to 17). The hover converter of the client library yields
  markdown strings only, which is the case modelled.
\<close>

definition toTrusted :: "MarkdownString \<Rightarrow> MarkdownString" where
  "toTrusted obj = (if String_includes (md_value obj) ''```rust'' then obj\<lparr>isTrusted := True\<rparr> else obj)"

text \<open>
  \<^verbatim>\<open>renderCommand\<close> (lines 19 to 21). A template literal writes an absent value as the
  text \<^verbatim>\<open>undefined\<close>.
\<close>

definition renderCommand :: "CommandLink \<Rightarrow> string" where
  "renderCommand cmd =
     ''['' @ link_title cmd @ ''](command:'' @ link_command cmd @ ''?'' @
     encodeURIComponent
       (case JSON_stringify (JArr (link_arguments cmd)) of None \<Rightarrow> ''undefined'' | Some t \<Rightarrow> t) @
     [CHR '' '', CHR 0x27] @
     (case link_tooltip cmd of None \<Rightarrow> ''undefined'' | Some t \<Rightarrow> t) @
     [CHR 0x27, CHR '')'']"

text \<open>\<^verbatim>\<open>renderHoverActions\<close> (lines 23 to 31).\<close>

definition renderHoverActions :: "CommandLinkGroup list \<Rightarrow> MarkdownString" where
  "renderHoverActions actions =
     (let text = join ''___''
        (map (\<lambda>grp.
                (case group_title grp of
                   None \<Rightarrow> []
                 | Some t \<Rightarrow> if t \<noteq> [] then t @ '' '' else []) @
                join '' | '' (map renderCommand (group_commands grp)))
             actions)
      in \<lparr>md_value = text, isTrusted = True\<rparr>)"

text \<open>
  The answer to a hover request: the protocol hover, with the \<^verbatim>\<open>actions\<close> that the
  server may attach beside it.
\<close>

record 'h HoverResult =
  protocol_hover :: 'h
  actions :: "CommandLinkGroup list option"

text \<open>
  \<^verbatim>\<open>provideHover\<close> (lines 61 to 81) as a function of the transport's answer. The converter
  \<^verbatim>\<open>protocol2CodeConverter.asHover\<close> is a parameter; it sees the answer without the
  \<^verbatim>\<open>actions\<close>. Reading \<^verbatim>\<open>actions\<close> off a \<^verbatim>\<open>null\<close> answer would be a TypeError.
\<close>

definition provideHover ::
  "('h option \<Rightarrow> Hover option) \<Rightarrow> 'e client \<Rightarrow> ('e, 'h HoverResult option) promise
     \<Rightarrow> (error, Hover maybe) promise \<times> 'e client" where
  "provideHover asHover client response =
     (case response of
        Rejected error \<Rightarrow> (Fulfilled JsNull, logFailedRequest client HoverRequest error)
      | Fulfilled result \<Rightarrow>
          (case asHover (map_option protocol_hover result) of
             None \<Rightarrow> (Fulfilled JsUndefined, client)
           | Some hover \<Rightarrow>
               (let hover1 = hover\<lparr>contents := map toTrusted (contents hover)\<rparr> in
                case result of
                  None \<Rightarrow> (Rejected TypeError, client)
                | Some r \<Rightarrow>
                    (case actions r of
                       None \<Rightarrow> (Fulfilled (Value hover1), client)
                     | Some groups \<Rightarrow>
                         (Fulfilled (Value (hover1\<lparr>contents :=
                            contents hover1 @ [renderHoverActions groups]\<rparr>)), client)))))"

section \<open>A library instance for concrete runs\<close>

text \<open>
  One choice of the library parameters, used where a property is evaluated on a concrete
  input: the guard accepts an object with a string title that carries an edit or a
  command, every diagnostic is accepted, and the converter keeps the title and the edit.
\<close>

definition sample_lib :: lib where
  "sample_lib =
     \<lparr>CodeAction_is = (\<lambda>v. Is_string (field v ''title'') \<and>
                            (field v ''edit'' \<noteq> JUndefined \<or> field v ''command'' \<noteq> JUndefined)),
      Diagnostic_is = (\<lambda>v. True),
      asCodeAction = (\<lambda>v. (new_CodeAction (field v ''title''))\<lparr>act_edit := field v ''edit''\<rparr>)\<rparr>"

section \<open>Shapes of elements and the invariant of the first loop\<close>

text \<open>
  An element that takes the branch of line 96 and passes its assertion: the guard
  recognises it and it has no command.
\<close>

definition isFull :: "lib \<Rightarrow> js \<Rightarrow> bool" where
  "isFull L item = (CodeAction_is L item \<and> \<not> truthy (field item ''command''))"

text \<open>
  A resolvable stub, an element that reaches line 103: the guard of line 96 does not
  recognise it and the assertion of line 102 accepts it.
\<close>

definition isStub :: "lib \<Rightarrow> js \<Rightarrow> bool" where
  "isStub L item = (\<not> CodeAction_is L item \<and> isCodeActionWithoutEditsAndCommands L item)"

text \<open>An element that the first loop processes without a failed assertion.\<close>

definition accepted :: "lib \<Rightarrow> js \<Rightarrow> bool" where
  "accepted L item = (isFull L item \<or> isStub L item)"

text \<open>A stub that carries the group tag \<open>G\<close>, whatever value the tag is.\<close>

definition hasTag :: "lib \<Rightarrow> js \<Rightarrow> js \<Rightarrow> bool" where
  "hasTag L G item = (isStub L item \<and> field item ''group'' = G)"


text \<open>
  A produced action read back as a raw element, the object with the same properties. It
  states what re-running the pass on its own output means.
\<close>

definition asItem :: "CodeAction \<Rightarrow> js" where
  "asItem a =
     JObj [(''title'', act_title a), (''kind'', act_kind a),
           (''diagnostics'', act_diagnostics a), (''edit'', act_edit a),
           (''command'',
              (case act_command a of
                 None \<Rightarrow> JUndefined
               | Some c \<Rightarrow> JObj [(''command'', JStr (cmd_command c)), (''title'', cmd_title c),
                                 (''arguments'', JArr (cmd_arguments c))])),
           (''isPreferred'', act_isPreferred a)]"

text \<open>
  The invariant of the first loop. No two entries of the map have the same key or the
  same index; the index of an entry lies inside the result and its members are display
  actions of stubs, at least one.
\<close>

fun keys_distinct :: "groups \<Rightarrow> bool" where
  "keys_distinct [] = True"
| "keys_distinct ((k, e) # g) = (Map_get g k = None \<and> keys_distinct g)"

definition wf_entry :: "js \<Rightarrow> nat \<Rightarrow> GroupEntry \<Rightarrow> bool" where
  "wf_entry p n e =
     (index e < n \<and> items e \<noteq> [] \<and> (\<forall>a \<in> set (items e). \<exists>v. a = resolveAction p v))"

definition wf_state :: "js \<Rightarrow> pass_state \<Rightarrow> bool" where
  "wf_state p st =
     (distinct (map (index \<circ> snd) (snd st)) \<and> keys_distinct (snd st) \<and>
      (\<forall>(k, e) \<in> set (snd st). wf_entry p (length (fst st)) e))"

section \<open>The first loop, the map and the second loop\<close>

subsection \<open>One element of the first loop\<close>

lemma processItems_append:
  "processItems L p (xs @ ys) st =
     (case processItems L p xs st of Inl e \<Rightarrow> Inl e | Inr st' \<Rightarrow> processItems L p ys st')"
  by (induction xs arbitrary: st) (auto split: sum.splits)

lemma processItem_full:
  "isFull L v \<Longrightarrow> processItem L p v (r, g) = Inr (r @ [asCodeAction L v], g)"
  by (simp add: isFull_def assert_def)

lemma processItem_ungrouped:
  "isStub L v \<Longrightarrow> \<not> truthy (field v ''group'') \<Longrightarrow>
   processItem L p v (r, g) = Inr (r @ [resolveAction p v], g)"
  by (simp add: isStub_def assert_def)

lemma processItem_new_group:
  "isStub L v \<Longrightarrow> truthy (field v ''group'') \<Longrightarrow> Map_get g (field v ''group'') = None \<Longrightarrow>
   processItem L p v (r, g) =
     Inr (r @ [resolveAction p v],
          Map_set g (field v ''group'') \<lparr>index = length r, items = [resolveAction p v]\<rparr>)"
  by (simp add: isStub_def assert_def Let_def)

lemma processItem_old_group:
  "isStub L v \<Longrightarrow> truthy (field v ''group'') \<Longrightarrow> Map_get g (field v ''group'') = Some e \<Longrightarrow>
   processItem L p v (r, g) = Inr (r, push_item g (field v ''group'') (resolveAction p v))"
  by (simp add: isStub_def assert_def Let_def)

lemma processItem_rejected:
  "\<not> accepted L v \<Longrightarrow> \<exists>msg. processItem L p v st = Inl (AssertionError msg)"
  by (cases st) (auto simp: accepted_def isFull_def isStub_def assert_def)

lemma processItem_Inr_accepted:
  "processItem L p v st = Inr st' \<Longrightarrow> accepted L v"
  using processItem_rejected [of L v p st] by auto

subsection \<open>The map\<close>

lemma sameValueZero_iff: "sameValueZero a b \<longleftrightarrow> a = b \<and> sameValueZero a a"
  by (cases a) auto

lemma sameValueZero_JStr [simp]: "sameValueZero k (JStr s) \<longleftrightarrow> k = JStr s"
  by (cases k) auto

lemma Map_get_append:
  "Map_get (g @ h) k = (case Map_get g k of Some e \<Rightarrow> Some e | None \<Rightarrow> Map_get h k)"
  by (induction g) auto

lemma Map_set_new: "Map_get g k = None \<Longrightarrow> Map_set g k e = g @ [(k, e)]"
  by (induction g) (auto split: if_splits)

lemma Map_get_SomeD: "Map_get g k = Some e \<Longrightarrow> (k, e) \<in> set g"
  by (induction g) (auto split: if_splits dest: sameValueZero_iff [THEN iffD1])

lemma Map_get_push_item:
  "Map_get (push_item g key a) k =
     (if sameValueZero key k then map_option (\<lambda>e. e\<lparr>items := items e @ [a]\<rparr>) (Map_get g k)
      else Map_get g k)"
proof (induction g)
  case Nil
  then show ?case by simp
next
  case (Cons x g)
  obtain k' e' where x: "x = (k', e')" by (cases x)
  show ?case using Cons x
    by (auto dest: sameValueZero_iff [THEN iffD1])
qed

lemma push_item_index: "map (index \<circ> snd) (push_item g key a) = map (index \<circ> snd) g"
  by (induction g) auto

lemma push_item_mem:
  "(k, e') \<in> set (push_item g key a) \<Longrightarrow>
   \<exists>e. (k, e) \<in> set g \<and> (e' = e \<or> e' = e\<lparr>items := items e @ [a]\<rparr>)"
  by (induction g) (fastforce split: if_splits)+

subsection \<open>The invariant is kept\<close>

lemma wf_state_init: "wf_state p ([], [])"
  by (simp add: wf_state_def)

lemma sameValueZero_sym: "sameValueZero a b \<Longrightarrow> sameValueZero b a"
  by (cases a) auto

lemma Map_get_None_iff: "Map_get g k = None \<longleftrightarrow> (\<forall>(k', e) \<in> set g. \<not> sameValueZero k' k)"
proof (induction g)
  case Nil
  then show ?case by simp
next
  case (Cons x g)
  obtain k' e' where x: "x = (k', e')" by (cases x)
  show ?case using Cons x by (cases "sameValueZero k' k") simp_all
qed

lemma keys_distinct_append:
  "keys_distinct g \<Longrightarrow> Map_get g k = None \<Longrightarrow> keys_distinct (g @ [(k, e)])"
  by (induction g) (auto simp: Map_get_append dest: sameValueZero_sym split: if_splits)

lemma keys_distinct_push_item: "keys_distinct g \<Longrightarrow> keys_distinct (push_item g key a)"
  by (induction g) (auto simp: Map_get_push_item)

lemma keys_distinct_Map_get:
  "keys_distinct g \<Longrightarrow> (k, e) \<in> set g \<Longrightarrow> sameValueZero k k \<Longrightarrow> Map_get g k = Some e"
proof (induction g)
  case Nil
  then show ?case by simp
next
  case (Cons x g)
  obtain k' e' where x: "x = (k', e')" by (cases x)
  show ?case
  proof (cases "(k, e) = x")
    case True
    then show ?thesis using Cons.prems x by simp
  next
    case False
    then have mem: "(k, e) \<in> set g" using Cons.prems by simp
    have "\<not> sameValueZero k' k"
    proof
      assume "sameValueZero k' k"
      then have "sameValueZero k k'" by (rule sameValueZero_sym)
      moreover have "Map_get g k' = None" using Cons.prems x by simp
      ultimately show False using mem by (auto simp: Map_get_None_iff)
    qed
    then show ?thesis using Cons x mem by simp
  qed
qed

lemma wf_step_push:
  assumes "wf_state p (r, g)"
  shows "wf_state p (r @ [a], g)"
  using assms unfolding wf_state_def wf_entry_def
  by (auto simp: less_Suc_eq)

lemma wf_step_new:
  assumes "wf_state p (r, g)" "Map_get g k = None"
  shows "wf_state p (r @ [resolveAction p v], g @ [(k, \<lparr>index = length r, items = [resolveAction p v]\<rparr>)])"
  using assms unfolding wf_state_def wf_entry_def
  by (auto simp: less_Suc_eq keys_distinct_append)

lemma wf_step_old:
  assumes "wf_state p (r, g)"
  shows "wf_state p (r, push_item g k (resolveAction p v))"
proof -
  let ?g' = "push_item g k (resolveAction p v)"
  have "wf_entry p (length r) e'" if "(k', e') \<in> set ?g'" for k' e'
  proof -
    from push_item_mem [OF that] obtain e where
      e: "(k', e) \<in> set g" "e' = e \<or> e' = e\<lparr>items := items e @ [resolveAction p v]\<rparr>"
      by blast
    then have "wf_entry p (length r) e" using assms by (auto simp: wf_state_def)
    then show ?thesis using e(2) by (auto simp: wf_entry_def)
  qed
  then show ?thesis using assms
    by (auto simp: wf_state_def push_item_index keys_distinct_push_item)
qed

lemma processItem_cases:
  assumes "processItem L p v (r, g) = Inr st'"
  obtains
    (full) "isFull L v" "st' = (r @ [asCodeAction L v], g)"
  | (ungrouped) "isStub L v" "\<not> truthy (field v ''group'')" "st' = (r @ [resolveAction p v], g)"
  | (new) "isStub L v" "truthy (field v ''group'')" "Map_get g (field v ''group'') = None"
      "st' = (r @ [resolveAction p v],
              g @ [(field v ''group'', \<lparr>index = length r, items = [resolveAction p v]\<rparr>)])"
  | (old) e where "isStub L v" "truthy (field v ''group'')"
      "Map_get g (field v ''group'') = Some e"
      "st' = (r, push_item g (field v ''group'') (resolveAction p v))"
proof -
  have acc: "accepted L v" using assms by (rule processItem_Inr_accepted)
  show ?thesis
  proof (cases "isFull L v")
    case True
    then show ?thesis using assms full by (simp add: processItem_full del: processItem.simps)
  next
    case False
    then have stub: "isStub L v" using acc by (simp add: accepted_def)
    show ?thesis
    proof (cases "truthy (field v ''group'')")
      case False
      then show ?thesis using assms stub ungrouped
        by (simp add: processItem_ungrouped del: processItem.simps)
    next
      case True
      show ?thesis
      proof (cases "Map_get g (field v ''group'')")
        case None
        then show ?thesis using assms stub True new
          by (simp add: processItem_new_group Map_set_new del: processItem.simps)
      next
        case (Some e)
        then show ?thesis using assms stub True old
          by (simp add: processItem_old_group del: processItem.simps)
      qed
    qed
  qed
qed

lemma wf_processItem:
  assumes "wf_state p st" "processItem L p v st = Inr st'"
  shows "wf_state p st'"
proof -
  obtain r g where st: "st = (r, g)" by (cases st)
  from assms(2) [unfolded st] show ?thesis
  proof (cases rule: processItem_cases)
    case full
    then show ?thesis using assms(1) st by (simp add: wf_step_push)
  next
    case ungrouped
    then show ?thesis using assms(1) st by (simp add: wf_step_push)
  next
    case new
    then show ?thesis using assms(1) st by (simp add: wf_step_new)
  next
    case (old e)
    then show ?thesis using assms(1) st by (simp add: wf_step_old)
  qed
qed

lemma wf_processItems:
  "wf_state p st \<Longrightarrow> processItems L p xs st = Inr st' \<Longrightarrow> wf_state p st'"
  by (induction xs arbitrary: st) (auto split: sum.splits dest: wf_processItem)

subsection \<open>Accepted and rejected lists\<close>

lemma processItems_accepted:
  "\<forall>v \<in> set xs. accepted L v \<Longrightarrow> \<exists>st'. processItems L p xs st = Inr st'"
proof (induction xs arbitrary: st)
  case Nil
  then show ?case by simp
next
  case (Cons x xs)
  obtain r g where st: "st = (r, g)" by (cases st)
  have "\<exists>st1. processItem L p x (r, g) = Inr st1"
  proof (cases "isFull L x")
    case True
    then show ?thesis by (simp add: processItem_full del: processItem.simps)
  next
    case False
    then have stub: "isStub L x" using Cons.prems by (simp add: accepted_def)
    then show ?thesis
      by (cases "truthy (field x ''group'')"; cases "Map_get g (field x ''group'')")
         (simp_all add: processItem_ungrouped processItem_new_group processItem_old_group
            del: processItem.simps)
  qed
  then obtain st1 where "processItem L p x st = Inr st1" using st by auto
  then show ?case using Cons by simp
qed

lemma processItem_Inl:
  "processItem L p v st = Inl e \<Longrightarrow> \<exists>msg. e = AssertionError msg"
  by (cases st) (auto simp: assert_def Let_def split: if_splits option.splits)

lemma processItems_rejected:
  "v \<in> set xs \<Longrightarrow> \<not> accepted L v \<Longrightarrow> \<exists>msg. processItems L p xs st = Inl (AssertionError msg)"
proof (induction xs arbitrary: st)
  case Nil
  then show ?case by simp
next
  case (Cons x xs)
  show ?case
  proof (cases "processItem L p x st")
    case (Inl e)
    then obtain msg where "processItem L p x st = Inl (AssertionError msg)"
      using processItem_Inl by blast
    then show ?thesis by simp
  next
    case (Inr st1)
    then have "accepted L x" by (rule processItem_Inr_accepted)
    then have "v \<in> set xs" using Cons.prems by auto
    then show ?thesis using Cons Inr by simp
  qed
qed

lemma processItems_Inr_accepted:
  "processItems L p xs st = Inr st' \<Longrightarrow> \<forall>v \<in> set xs. accepted L v"
  using processItems_rejected [of _ xs L p st] by fastforce

subsection \<open>The result grows at its end\<close>

text \<open>
  A step leaves the actions already in the result where they are, and an entry that it
  adds to the map has its index at or after the former end of the result.
\<close>

lemma processItem_grows:
  assumes "processItem L p v (r, g) = Inr (r', g')"
  shows "(\<exists>ys. r' = r @ ys) \<and> (\<forall>(k, e) \<in> set g'. index e \<in> (index \<circ> snd) ` set g \<or> length r \<le> index e)"
  using assms
proof (cases rule: processItem_cases)
  case (old e)
  have "(index \<circ> snd) ` set (push_item g (field v ''group'') (resolveAction p v)) = (index \<circ> snd) ` set g"
    using push_item_index [of g "field v ''group''" "resolveAction p v"]
    by (metis set_map)
  then show ?thesis using old by force
qed force+

lemma processItems_grows:
  "processItems L p xs (r, g) = Inr (r', g') \<Longrightarrow>
   (\<exists>ys. r' = r @ ys) \<and> (\<forall>(k, e) \<in> set g'. index e \<in> (index \<circ> snd) ` set g \<or> length r \<le> index e)"
proof (induction xs arbitrary: r g)
  case Nil
  then show ?case by force
next
  case (Cons x xs)
  from Cons.prems obtain r1 g1 where
    step: "processItem L p x (r, g) = Inr (r1, g1)" and
    rest: "processItems L p xs (r1, g1) = Inr (r', g')"
    by (auto split: sum.splits)
  from processItem_grows [OF step] obtain ys where
    r1: "r1 = r @ ys" and
    g1: "\<forall>(k, e) \<in> set g1. index e \<in> (index \<circ> snd) ` set g \<or> length r \<le> index e"
    by blast
  from Cons.IH [OF rest] obtain zs where
    r': "r' = r1 @ zs" and
    g': "\<forall>(k, e) \<in> set g'. index e \<in> (index \<circ> snd) ` set g1 \<or> length r1 \<le> index e"
    by blast
  have "r' = r @ (ys @ zs)" using r1 r' by simp
  moreover have "index e \<in> (index \<circ> snd) ` set g \<or> length r \<le> index e"
    if "(k, e) \<in> set g'" for k e
  proof -
    from g' that have "index e \<in> (index \<circ> snd) ` set g1 \<or> length r1 \<le> index e" by auto
    then show ?thesis
    proof
      assume "index e \<in> (index \<circ> snd) ` set g1"
      then obtain k1 e1 where "(k1, e1) \<in> set g1" "index e1 = index e" by auto
      then show ?thesis using g1 by force
    next
      assume "length r1 \<le> index e"
      then show ?thesis using r1 by simp
    qed
  qed
  ultimately show ?case by blast
qed

subsection \<open>The entry of one group tag\<close>

text \<open>
  The entry of a tag through the loop, for a tag that is truthy and a primitive value (a
  key that equals itself): created with the current length of the result as its index
  when the first member is met, extended by each later member.
\<close>

lemma isFull_not_stub: "isFull L v \<Longrightarrow> \<not> isStub L v"
  by (simp add: isFull_def isStub_def)

lemma sameValueZero_prim: "sameValueZero G G \<Longrightarrow> sameValueZero k G \<longleftrightarrow> k = G"
  using sameValueZero_iff [of k G] by auto


lemma track_step:
  assumes "processItem L p v (r, gs) = Inr (r', gs')" "truthy G" "sameValueZero G G"
  shows "Map_get gs' G =
           (if hasTag L G v then
              (case Map_get gs G of
                 None \<Rightarrow> Some \<lparr>index = length r, items = [resolveAction p v]\<rparr>
               | Some e \<Rightarrow> Some (e\<lparr>items := items e @ [resolveAction p v]\<rparr>))
            else Map_get gs G)"
  using assms(1)
proof (cases rule: processItem_cases)
  case full
  then show ?thesis by (simp add: hasTag_def isFull_not_stub)
next
  case ungrouped
  then show ?thesis using assms(2) by (auto simp: hasTag_def)
next
  case new
  then show ?thesis using sameValueZero_prim [OF assms(3)]
    by (auto simp: hasTag_def Map_get_append split: option.splits)
next
  case (old e)
  then show ?thesis using sameValueZero_prim [OF assms(3)]
    by (auto simp: hasTag_def Map_get_push_item)
qed

lemma track_none:
  "processItems L p xs (r, gs) = Inr (r', gs') \<Longrightarrow> truthy G \<Longrightarrow> sameValueZero G G \<Longrightarrow>
   \<forall>v \<in> set xs. \<not> hasTag L G v \<Longrightarrow> Map_get gs' G = Map_get gs G"
proof (induction xs arbitrary: r gs)
  case Nil
  then show ?case by simp
next
  case (Cons x xs)
  from Cons.prems(1) obtain r1 g1 where
    step: "processItem L p x (r, gs) = Inr (r1, g1)" and
    rest: "processItems L p xs (r1, g1) = Inr (r', gs')"
    by (auto split: sum.splits)
  have "Map_get g1 G = Map_get gs G"
    using track_step [OF step Cons.prems(2,3)] Cons.prems(4) by simp
  moreover have "Map_get gs' G = Map_get g1 G"
    using Cons.IH [OF rest Cons.prems(2,3)] Cons.prems(4) by simp
  ultimately show ?case by simp
qed

lemma track_some:
  "processItems L p xs (r, gs) = Inr (r', gs') \<Longrightarrow> truthy G \<Longrightarrow> sameValueZero G G \<Longrightarrow>
   Map_get gs G = Some e \<Longrightarrow>
   Map_get gs' G =
     Some (e\<lparr>items := items e @ map (resolveAction p) (filter (hasTag L G) xs)\<rparr>)"
proof (induction xs arbitrary: r gs e)
  case Nil
  then show ?case by simp
next
  case (Cons x xs)
  from Cons.prems(1) obtain r1 g1 where
    step: "processItem L p x (r, gs) = Inr (r1, g1)" and
    rest: "processItems L p xs (r1, g1) = Inr (r', gs')"
    by (auto split: sum.splits)
  show ?case
  proof (cases "hasTag L G x")
    case True
    then have "Map_get g1 G = Some (e\<lparr>items := items e @ [resolveAction p x]\<rparr>)"
      using track_step [OF step Cons.prems(2,3)] Cons.prems(4) by simp
    from Cons.IH [OF rest Cons.prems(2,3) this] show ?thesis using True by simp
  next
    case False
    then have "Map_get g1 G = Some e"
      using track_step [OF step Cons.prems(2,3)] Cons.prems(4) by simp
    from Cons.IH [OF rest Cons.prems(2,3) this] show ?thesis using False by simp
  qed
qed

subsection \<open>The second loop\<close>

text \<open>
  The members of an entry are display actions of stubs, so the payload of a group action
  is always defined. The second loop keeps the length of the result, leaves alone a slot
  that is the index of no entry, and writes the slot of an entry once.
\<close>

lemma groupItem_resolveAction:
  "groupItem (resolveAction p v) =
     Inr (JObj [(''label'', field v ''title''),
                (''arguments'', JObj [(''id'', field v ''id''), (''codeActionParams'', p)])])"
  by (simp add: groupItem_def resolveAction_def new_CodeAction_def)

lemma groupItems_resolveAction:
  "groupItems (map (resolveAction p) vs) =
     Inr (map (\<lambda>v. JObj [(''label'', field v ''title''),
                          (''arguments'', JObj [(''id'', field v ''id''), (''codeActionParams'', p)])])
            vs)"
  by (induction vs) (simp_all add: groupItem_resolveAction)

lemma groupItems_succeeds:
  "\<forall>a \<in> set as. \<exists>v. a = resolveAction p v \<Longrightarrow> \<exists>ps. groupItems as = Inr ps"
  by (induction as) (auto simp: groupItem_resolveAction)

lemma collapseGroups_succeeds:
  "\<forall>(k, e) \<in> set g. \<forall>a \<in> set (items e). \<exists>v. a = resolveAction p v \<Longrightarrow>
   \<exists>out. collapseGroups g r = Inr out"
proof (induction g arbitrary: r)
  case Nil
  then show ?case by simp
next
  case (Cons x g)
  obtain k e where x: "x = (k, e)" by (cases x)
  have "\<exists>ps. groupItems (items e) = Inr ps"
    using Cons.prems x by (intro groupItems_succeeds [of _ p]) auto
  then obtain ps where ps: "groupItems (items e) = Inr ps" by blast
  have tail: "\<forall>(k, e) \<in> set g. \<forall>a \<in> set (items e). \<exists>v. a = resolveAction p v"
    using Cons.prems by simp
  show ?case using x ps Cons.IH [OF tail] by simp
qed

lemma collapseGroups_length: "collapseGroups g r = Inr out \<Longrightarrow> length out = length r"
  by (induction g r rule: collapseGroups.induct) (auto split: if_splits sum.splits)

lemma collapseGroups_other:
  "collapseGroups g r = Inr out \<Longrightarrow> \<forall>(k, e) \<in> set g. index e \<noteq> j \<Longrightarrow> out ! j = r ! j"
  by (induction g r rule: collapseGroups.induct) (auto split: if_splits sum.splits)

lemma collapseGroups_at:
  assumes "collapseGroups g r = Inr out" "distinct (map (index \<circ> snd) g)"
    "(k, e) \<in> set g" "index e < length r"
  shows "(length (items e) = 1 \<longrightarrow> out ! index e = items e ! 0) \<and>
         (length (items e) \<noteq> 1 \<longrightarrow>
            (\<exists>payload. groupItems (items e) = Inr payload \<and> out ! index e = groupAction k payload))"
  using assms
proof (induction g r rule: collapseGroups.induct)
  case (1 result)
  then show ?case by simp
next
  case (2 grp e0 rest result)
  show ?case
  proof (cases "(k, e) = (grp, e0)")
    case True
    have other: "\<forall>(k', e') \<in> set rest. index e' \<noteq> index e"
      using "2.prems"(2) True by force
    show ?thesis
    proof (cases "length (items e) = 1")
      case one: True
      then have "collapseGroups rest (result[index e := items e ! 0]) = Inr out"
        using "2.prems"(1) True by simp
      from collapseGroups_other [OF this other] show ?thesis using one "2.prems"(4) by simp
    next
      case many: False
      then obtain payload where
        pl: "groupItems (items e) = Inr payload" and
        run: "collapseGroups rest (result[index e := groupAction k payload]) = Inr out"
        using "2.prems"(1) True by (auto split: sum.splits)
      from collapseGroups_other [OF run other] show ?thesis using many pl "2.prems"(4) by simp
    qed
  next
    case False
    then have mem: "(k, e) \<in> set rest" using "2.prems"(3) by auto
    have dist: "distinct (map (index \<circ> snd) rest)" using "2.prems"(2) by (simp add: comp_def)
    show ?thesis
    proof (cases "length (items e0) = 1")
      case True
      then have run: "collapseGroups rest (result[index e0 := items e0 ! 0]) = Inr out"
        using "2.prems"(1) by simp
      show ?thesis using "2.IH"(1) [OF True run dist mem] "2.prems"(4) by simp
    next
      case False
      then obtain payload where
        pl: "groupItems (items e0) = Inr payload" and
        run: "collapseGroups rest (result[index e0 := groupAction grp payload]) = Inr out"
        using "2.prems"(1) by (auto split: sum.splits)
      show ?thesis using "2.IH"(2) [OF False pl run dist mem] "2.prems"(4) by simp
    qed
  qed
qed

subsection \<open>The pass as a whole\<close>

lemma wf_state_items:
  "wf_state p (r, g) \<Longrightarrow> \<forall>(k, e) \<in> set g. \<forall>a \<in> set (items e). \<exists>v. a = resolveAction p v"
  by (auto simp: wf_state_def wf_entry_def)

lemma provideCodeActions_run:
  assumes "processItems L (CodeActionParams td rng ctx) values ([], []) = Inr (r, g)"
  shows "\<exists>out. collapseGroups g r = Inr out \<and> length out = length r \<and>
           provideCodeActions L c td rng ctx (Fulfilled (Some values)) = (Fulfilled (Value out), c)"
proof -
  let ?p = "CodeActionParams td rng ctx"
  have wf: "wf_state ?p (r, g)" using wf_processItems [OF wf_state_init assms] .
  from collapseGroups_succeeds [OF wf_state_items [OF wf]] obtain out where
    out: "collapseGroups g r = Inr out" by blast
  then show ?thesis using assms collapseGroups_length [OF out]
    by (simp add: provideCodeActions_def)
qed

lemma processItems_ungrouped:
  "\<forall>v \<in> set xs. isStub L v \<and> \<not> truthy (field v ''group'') \<Longrightarrow>
   processItems L p xs (r, g) = Inr (r @ map (resolveAction p) xs, g)"
  by (induction xs arbitrary: r) (simp_all add: processItem_ungrouped del: processItem.simps)

lemma processItem_Inl_msg:
  "processItem L p v st = Inl e \<Longrightarrow>
   e = AssertionError ''We don't expect to receive commands in CodeActions'' \<or>
   e = AssertionError ''We don't expect edits or commands here''"
  by (cases st) (auto simp: assert_def Let_def split: if_splits option.splits)

lemma processItems_Inl_msg:
  "processItems L p xs st = Inl e \<Longrightarrow>
   e = AssertionError ''We don't expect to receive commands in CodeActions'' \<or>
   e = AssertionError ''We don't expect edits or commands here''"
  by (induction xs arbitrary: st) (auto split: sum.splits dest: processItem_Inl_msg)

lemma provideCodeActions_rejected:
  assumes "v \<in> set values" "\<not> accepted L v"
  shows "\<exists>e. provideCodeActions L client td rng ctx (Fulfilled (Some values)) = (Rejected e, client) \<and>
           (e = AssertionError ''We don't expect to receive commands in CodeActions'' \<or>
            e = AssertionError ''We don't expect edits or commands here'')"
proof -
  from processItems_rejected [OF assms] obtain msg where
    run: "processItems L (CodeActionParams td rng ctx) values ([], []) = Inl (AssertionError msg)"
    by blast
  show ?thesis using run processItems_Inl_msg [OF run]
    by (auto simp: provideCodeActions_def)
qed

lemma processItems_full:
  "\<forall>v \<in> set xs. isFull L v \<Longrightarrow>
   processItems L p xs (r, g) = Inr (r @ map (asCodeAction L) xs, g)"
  by (induction xs arbitrary: r) (simp_all add: processItem_full del: processItem.simps)

lemma asItem_command:
  "act_command a \<noteq> None \<Longrightarrow> truthy (field (asItem a) ''command'')"
  by (auto simp: asItem_def)

subsection \<open>Output slots\<close>

lemma pass_split:
  assumes "\<forall>x \<in> set (pre @ m # rest). accepted L x"
  obtains r1 g1 r1' g1' r2 g2 where
    "processItems L p pre ([], []) = Inr (r1, g1)" "wf_state p (r1, g1)"
    "processItem L p m (r1, g1) = Inr (r1', g1')"
    "processItems L p rest (r1', g1') = Inr (r2, g2)" "wf_state p (r2, g2)"
    "processItems L p (pre @ m # rest) ([], []) = Inr (r2, g2)"
proof -
  from processItems_accepted [OF assms, of p "([], [])"] obtain r2 g2 where
    all: "processItems L p (pre @ m # rest) ([], []) = Inr (r2, g2)" by (metis surj_pair)
  then obtain r1 g1 where
    pre: "processItems L p pre ([], []) = Inr (r1, g1)" and
    tail: "processItems L p (m # rest) (r1, g1) = Inr (r2, g2)"
    by (auto simp: processItems_append split: sum.splits)
  from tail obtain r1' g1' where
    step: "processItem L p m (r1, g1) = Inr (r1', g1')" and
    rest: "processItems L p rest (r1', g1') = Inr (r2, g2)"
    by (auto split: sum.splits)
  have wf1: "wf_state p (r1, g1)" using wf_processItems [OF wf_state_init pre] .
  have wf2: "wf_state p (r2, g2)" using wf_processItems [OF wf_state_init all] .
  show ?thesis using that [OF pre wf1 step rest wf2 all] .
qed

lemma wf_state_index: "wf_state p (r, g) \<Longrightarrow> (k, e) \<in> set g \<Longrightarrow> index e < length r"
  by (auto simp: wf_state_def wf_entry_def)

lemma plain_slot:
  assumes wf1: "wf_state p (r1, g1)"
    and rest: "processItems L p rest (r1 @ [a], g1) = Inr (r2, g2)"
    and out: "collapseGroups g2 r2 = Inr out"
  shows "length r1 < length out \<and> out ! length r1 = a"
proof -
  from processItems_grows [OF rest] obtain ys where
    r2: "r2 = (r1 @ [a]) @ ys" and
    idx: "\<forall>(k, e) \<in> set g2. index e \<in> (index \<circ> snd) ` set g1 \<or> length (r1 @ [a]) \<le> index e"
    by blast
  have "index e \<noteq> length r1" if "(k, e) \<in> set g2" for k e
  proof -
    from idx that have "index e \<in> (index \<circ> snd) ` set g1 \<or> length (r1 @ [a]) \<le> index e"
      by auto
    then show ?thesis
    proof
      assume "index e \<in> (index \<circ> snd) ` set g1"
      then obtain k1 e1 where "(k1, e1) \<in> set g1" "index e1 = index e" by auto
      then show ?thesis using wf_state_index [OF wf1] by fastforce
    next
      assume "length (r1 @ [a]) \<le> index e"
      then show ?thesis by simp
    qed
  qed
  then have "\<forall>(k, e) \<in> set g2. index e \<noteq> length r1" by auto
  from collapseGroups_other [OF out this] have "out ! length r1 = r2 ! length r1" .
  moreover have "r2 ! length r1 = a" using r2 by (simp add: nth_append)
  moreover have "length out = length r2" using collapseGroups_length [OF out] .
  ultimately show ?thesis using r2 by simp
qed

lemma takeWhile_not:
  "\<forall>x \<in> set (takeWhile (\<lambda>x. \<not> P x) xs). \<not> P x"
  using set_takeWhileD [of _ "\<lambda>x. \<not> P x" xs] by blast

lemma first_member_split:
  assumes "filter P xs = m # ms"
  obtains rest where
    "xs = takeWhile (\<lambda>x. \<not> P x) xs @ m # rest" "P m" "ms = filter P rest"
proof -
  let ?pre = "takeWhile (\<lambda>x. \<not> P x) xs"
  let ?post = "dropWhile (\<lambda>x. \<not> P x) xs"
  have split: "xs = ?pre @ ?post" by simp
  have none: "filter P ?pre = []"
    using takeWhile_not [of P xs] by (simp add: filter_empty_conv)
  have "filter P xs = filter P ?pre @ filter P ?post"
    by (metis filter_append split)
  then have post: "filter P ?post = m # ms" using assms none by simp
  then have "?post \<noteq> []" by (metis filter.simps(1) list.distinct(1))
  then obtain x rest where xr: "?post = x # rest" by (cases ?post) auto
  have hx: "P x" using xr hd_dropWhile [of "\<lambda>x. \<not> P x" xs] by auto
  then have "x = m" "ms = filter P rest" using post xr by simp_all
  then show ?thesis using that [of rest] split xr hx by simp
qed

lemma tag_slot:
  assumes acc: "\<forall>x \<in> set values. accepted L x"
    and tr: "truthy G"
    and prim: "sameValueZero G G"
    and members: "filter (hasTag L G) values = m # ms"
  obtains r1 g1 r2 g2 where
    "processItems L p (takeWhile (\<lambda>x. \<not> hasTag L G x) values) ([], []) = Inr (r1, g1)"
    "processItems L p values ([], []) = Inr (r2, g2)"
    "wf_state p (r2, g2)"
    "Map_get g2 G = Some \<lparr>index = length r1, items = map (resolveAction p) (m # ms)\<rparr>"
    "length r1 < length r2"
proof -
  let ?pre = "takeWhile (\<lambda>x. \<not> hasTag L G x) values"
  from first_member_split [OF members] obtain rest where
    split: "values = ?pre @ m # rest" and hm: "hasTag L G m" and
    ms: "ms = filter (hasTag L G) rest"
    by blast
  have "\<forall>x \<in> set (?pre @ m # rest). accepted L x" using acc split by metis
  then obtain r1 g1 r1' g1' r2 g2 where
    pre: "processItems L p ?pre ([], []) = Inr (r1, g1)" and
    step: "processItem L p m (r1, g1) = Inr (r1', g1')" and
    rest: "processItems L p rest (r1', g1') = Inr (r2, g2)" and
    wf2: "wf_state p (r2, g2)" and
    all: "processItems L p (?pre @ m # rest) ([], []) = Inr (r2, g2)"
    by (rule pass_split [where p = p])
  from track_none [OF pre tr prim takeWhile_not] have none: "Map_get g1 G = None" by simp
  have e1: "Map_get g1' G = Some \<lparr>index = length r1, items = [resolveAction p m]\<rparr>"
    using track_step [OF step tr prim] hm none by simp
  have e2: "Map_get g2 G =
      Some \<lparr>index = length r1, items = map (resolveAction p) (m # ms)\<rparr>"
    using track_some [OF rest tr prim e1] ms by simp
  have stub: "isStub L m" and trm: "truthy (field m ''group'')"
    using hm tr by (simp_all add: hasTag_def)
  have "Map_get g1 (field m ''group'') = None" using none hm by (simp add: hasTag_def)
  from processItem_new_group [OF stub trm this, of p r1] step
  have "r1' = r1 @ [resolveAction p m]" by simp
  moreover from processItems_grows [OF rest] obtain ys where "r2 = r1' @ ys" by blast
  ultimately have len: "length r1 < length r2" by simp
  have all': "processItems L p values ([], []) = Inr (r2, g2)" using all split by simp
  show ?thesis using that [OF pre all' wf2 e2 len] .
qed


lemma processItem_origin:
  assumes "processItem L p v (r, g) = Inr (r', g')" "a \<in> set r'"
  shows "a \<in> set r \<or> a = resolveAction p v \<or> (isFull L v \<and> a = asCodeAction L v)"
  using assms by (cases rule: processItem_cases) auto

lemma processItems_origin:
  "processItems L p xs (r, g) = Inr (r', g') \<Longrightarrow> a \<in> set r' \<Longrightarrow>
   a \<in> set r \<or> (\<exists>v \<in> set xs. a = resolveAction p v \<or> (isFull L v \<and> a = asCodeAction L v))"
proof (induction xs arbitrary: r g)
  case Nil
  then show ?case by simp
next
  case (Cons x xs)
  from Cons.prems(1) obtain r1 g1 where
    step: "processItem L p x (r, g) = Inr (r1, g1)" and
    rest: "processItems L p xs (r1, g1) = Inr (r', g')"
    by (auto split: sum.splits)
  from Cons.IH [OF rest Cons.prems(2)]
  show ?case
  proof
    assume "a \<in> set r1"
    from processItem_origin [OF step this] show ?thesis by auto
  next
    assume "\<exists>v \<in> set xs. a = resolveAction p v \<or> (isFull L v \<and> a = asCodeAction L v)"
    then show ?thesis by auto
  qed
qed

lemma collapseGroups_char:
  assumes out: "collapseGroups g r = Inr out"
    and dist: "distinct (map (index \<circ> snd) g)"
    and j: "j < length r"
  shows "out ! j = r ! j \<or>
         (\<exists>k e. (k, e) \<in> set g \<and> index e = j \<and>
            ((length (items e) = 1 \<and> out ! j = items e ! 0) \<or>
             (\<exists>payload. out ! j = groupAction k payload)))"
proof (cases "\<exists>(k, e) \<in> set g. index e = j")
  case True
  then obtain k e where ke: "(k, e) \<in> set g" "index e = j" by auto
  from collapseGroups_at [OF out dist ke(1)] j ke(2)
  have "(length (items e) = 1 \<and> out ! j = items e ! 0) \<or>
        (\<exists>payload. out ! j = groupAction k payload)"
    by (cases "length (items e) = 1") auto
  then show ?thesis using ke by blast
next
  case False
  then have "\<forall>(k, e) \<in> set g. index e \<noteq> j" by auto
  from collapseGroups_other [OF out this] show ?thesis by simp
qed

lemma resolveAction_command:
  "act_command (resolveAction p v) = Some c \<Longrightarrow> cmd_command c = ''rust-analyzer.resolveCodeAction''"
  by (auto simp: resolveAction_def)

lemma index_in_range:
  assumes "processItems L p xs ([], []) = Inr (result, groups)" "(k, e) \<in> set groups"
  shows "index e < length result"
  using wf_state_index [OF wf_processItems [OF wf_state_init assms(1)] assms(2)] .

section \<open>Transport answers without actions\<close>

text \<open>
  Claim C6. When the answer to the code-action request is \<^verbatim>\<open>null\<close>, the explicit signal
  for "no actions", the transform returns \<^verbatim>\<open>undefined\<close>, not an empty list, and the
  client is left as it was. The empty list is the result for an empty list of actions.
\<close>

theorem provideCodeActions_null:
  "provideCodeActions L client textDocument rng context (Fulfilled None) =
     (Fulfilled JsUndefined, client)
   \<and> fst (provideCodeActions L client textDocument rng context (Fulfilled None)) \<noteq>
     Fulfilled (Value [])
   \<and> provideCodeActions L client textDocument rng context (Fulfilled (Some [])) =
     (Fulfilled (Value []), client)"
  by (simp add: provideCodeActions_def)

text \<open>
  Claim C7, as amended. A rejected hover request is reported through
  \<^verbatim>\<open>client.logFailedRequest\<close> and the transform resolves to \<^verbatim>\<open>null\<close>. A rejected
  code-action request resolves to \<^verbatim>\<open>undefined\<close>; its rejection callback receives the error
  as \<^verbatim>\<open>_error\<close> and makes no call on the client, so nothing is logged.
\<close>

theorem transport_failure:
  "provideHover asHover client (Rejected e) =
     (Fulfilled JsNull, client\<lparr>failedRequests := failedRequests client @ [(HoverRequest, e)]\<rparr>)
   \<and> provideCodeActions L client textDocument rng context (Rejected e) =
     (Fulfilled JsUndefined, client)"
  by (simp add: provideHover_def provideCodeActions_def logFailedRequest_def)

text \<open>
  Claim C7 as stated has the code-action transform log the failure as well. On a rejected
  code-action request the list of logged failures is still empty.
\<close>

theorem codeAction_failure_not_logged:
  "failedRequests (snd (provideCodeActions sample_lib \<lparr>failedRequests = []\<rparr> JNull JNull JNull
      (Rejected ''connection lost''))) = []"
  by (simp add: provideCodeActions_def)

section \<open>The hover action bar\<close>

text \<open>
  Claim C8, as amended. The action bar of no groups is empty. A single group renders as
  its title and a space, when it has a non-empty title, followed by its command links
  joined by \<^verbatim>\<open> | \<close>; further groups follow after the separator \<^verbatim>\<open>___\<close>. A command link
  renders as \<^verbatim>\<open>[title](command:name?args 'tooltip')\<close>, where \<^verbatim>\<open>args\<close> is the URI-escaped
  JSON array of the arguments, brackets included, and the tooltip text is the link's
  \<^verbatim>\<open>tooltip\<close> field, or the text \<^verbatim>\<open>undefined\<close> when the link has none. The block is
  trusted.
\<close>

theorem hover_action_bar_format:
  "md_value (renderHoverActions []) = []
   \<and> md_value (renderHoverActions [\<lparr>group_title = title, group_commands = cmds\<rparr>]) =
       (case title of None \<Rightarrow> [] | Some t \<Rightarrow> if t = [] then [] else t @ '' '') @
       join '' | '' (map renderCommand cmds)
   \<and> md_value (renderHoverActions (g # g' # gs)) =
       md_value (renderHoverActions [g]) @ ''___'' @ md_value (renderHoverActions (g' # gs))
   \<and> renderCommand \<lparr>link_title = label, link_command = name, link_tooltip = tip,
                     link_arguments = args\<rparr> =
       ''['' @ label @ ''](command:'' @ name @ ''?'' @
       encodeURIComponent
         (''['' @ join '','' (map (\<lambda>x. case JSON_stringify x of None \<Rightarrow> ''null'' | Some t \<Rightarrow> t) args)
          @ '']'') @
       '' '' @ [CHR 0x27] @ (case tip of None \<Rightarrow> ''undefined'' | Some t \<Rightarrow> t) @ [CHR 0x27] @ '')''
   \<and> isTrusted (renderHoverActions (g # gs))"
  by (simp add: renderHoverActions_def renderCommand_def split: option.splits)

text \<open>The spec's example, with the label repeated as the tooltip.\<close>

theorem hover_action_bar_format_witness:
  "md_value (renderHoverActions
      [\<lparr>group_title = Some ''Fixes'',
        group_commands = [\<lparr>link_title = ''Fix 1'', link_command = ''x.fix'',
                           link_tooltip = Some ''Fix 1'', link_arguments = [JNum 1]\<rparr>]\<rparr>]) =
   ''Fixes [Fix 1](command:x.fix?%5B1%5D 'Fix 1')''"
  using hover_action_bar_format [of "Some ''Fixes''"
     "[\<lparr>link_title = ''Fix 1'', link_command = ''x.fix'',
        link_tooltip = Some ''Fix 1'', link_arguments = [JNum 1]\<rparr>]"
     _ _ _ "''Fix 1''" "''x.fix''" "Some ''Fix 1''" "[JNum 1]"]
  by (simp add: encodeURIComponent_def percentEncode_def uriUnreserved_def showInt_def
      showNat.simps)

text \<open>
  Claim C8 as stated takes the tooltip from the label and gives
  \<^verbatim>\<open>Fixes [Fix 1](command:x.fix?1 'Fix 1')\<close> for the spec's example, a link without a
  tooltip. The code renders the argument list with its brackets, escaped, and the missing
  tooltip as \<^verbatim>\<open>undefined\<close>.
\<close>

theorem hover_action_bar_example:
  "md_value (renderHoverActions
      [\<lparr>group_title = Some ''Fixes'',
        group_commands = [\<lparr>link_title = ''Fix 1'', link_command = ''x.fix'',
                           link_tooltip = None, link_arguments = [JNum 1]\<rparr>]\<rparr>]) =
   ''Fixes [Fix 1](command:x.fix?%5B1%5D 'undefined')''
   \<and> md_value (renderHoverActions
      [\<lparr>group_title = Some ''Fixes'',
        group_commands = [\<lparr>link_title = ''Fix 1'', link_command = ''x.fix'',
                           link_tooltip = None, link_arguments = [JNum 1]\<rparr>]\<rparr>]) \<noteq>
   ''Fixes [Fix 1](command:x.fix?1 'Fix 1')''"
  by (simp add: renderHoverActions_def renderCommand_def encodeURIComponent_def
      percentEncode_def uriUnreserved_def showInt_def showNat.simps)

text \<open>
  Claim C9, as amended. When the converter yields a hover, the enricher marks its blocks
  and appends one block, the rendered action bar, exactly when \<^verbatim>\<open>actions\<close> is present; an
  empty list is present, and its block has empty text. When \<^verbatim>\<open>actions\<close> is absent the
  contents gain no block.
\<close>

theorem hover_actions_block:
  assumes "asHover (Some h) = Some hover"
  shows "fst (provideHover asHover client
                (Fulfilled (Some \<lparr>protocol_hover = h, actions = acts\<rparr>))) =
         Fulfilled (Value \<lparr>contents = map toTrusted (contents hover) @
            (case acts of None \<Rightarrow> [] | Some groups \<Rightarrow> [renderHoverActions groups])\<rparr>)"
  using assms by (simp add: provideHover_def Let_def split: option.splits)

theorem hover_actions_block_witness:
  "fst (provideHover id \<lparr>failedRequests = ([] :: (request_type \<times> string) list)\<rparr>
      (Fulfilled (Some \<lparr>protocol_hover =
                          \<lparr>contents = [\<lparr>md_value = ''fn main()'', isTrusted = False\<rparr>]\<rparr>,
                        actions = None\<rparr>))) =
   Fulfilled (Value \<lparr>contents = [\<lparr>md_value = ''fn main()'', isTrusted = False\<rparr>]\<rparr>)"
  using hover_actions_block [of id
      "\<lparr>contents = [\<lparr>md_value = ''fn main()'', isTrusted = False\<rparr>]\<rparr>"
      "\<lparr>contents = [\<lparr>md_value = ''fn main()'', isTrusted = False\<rparr>]\<rparr>"
      "\<lparr>failedRequests = ([] :: (request_type \<times> string) list)\<rparr>" None]
  by (simp add: toTrusted_def)

text \<open>
  Claim C9 as stated lets an empty \<^verbatim>\<open>actions\<close> list add nothing. The guard is
  \<^verbatim>\<open>if (actions)\<close>, and an empty array is truthy: the hover gains a trusted block of
  empty text.
\<close>

theorem hover_empty_actions_block:
  "fst (provideHover id \<lparr>failedRequests = ([] :: (request_type \<times> string) list)\<rparr>
      (Fulfilled (Some \<lparr>protocol_hover =
                          \<lparr>contents = [\<lparr>md_value = ''fn main()'', isTrusted = False\<rparr>]\<rparr>,
                        actions = Some []\<rparr>))) =
   Fulfilled (Value \<lparr>contents = [\<lparr>md_value = ''fn main()'', isTrusted = False\<rparr>,
                                  \<lparr>md_value = [], isTrusted = True\<rparr>]\<rparr>)"
  by (simp add: provideHover_def toTrusted_def renderHoverActions_def)

section \<open>The code-action pass on stubs\<close>

text \<open>
  Claim C3. On a list of stubs that carry no group tag (the \<^verbatim>\<open>group\<close> field is absent or
  falsy) the pass returns one action per stub, in the order of the input. Each action has
  the stub's title, no edit, and as its only invocation the command
  \<^verbatim>\<open>rust-analyzer.resolveCodeAction\<close> with the single argument
  \<^verbatim>\<open>{id, codeActionParams}\<close>: the stub's id and the request parameters, which are the
  object \<^verbatim>\<open>{textDocument, range, context}\<close> of the request's document, range and context.
\<close>

theorem ungrouped_stubs_in_order:
  assumes "\<forall>v \<in> set values. isStub L v \<and> \<not> truthy (field v ''group'')"
  shows "provideCodeActions L client textDocument rng context (Fulfilled (Some values)) =
     (Fulfilled (Value (map (\<lambda>v.
        \<lparr>act_title = field v ''title'', act_kind = JUndefined, act_diagnostics = JUndefined,
         act_edit = JUndefined,
         act_command = Some
           \<lparr>cmd_command = ''rust-analyzer.resolveCodeAction'',
            cmd_title = field v ''title'',
            cmd_arguments =
              [JObj [(''id'', field v ''id''),
                     (''codeActionParams'',
                      JObj [(''textDocument'', textDocument), (''range'', rng),
                            (''context'', context)])]]\<rparr>,
         act_isPreferred = JUndefined\<rparr>) values)), client)"
proof -
  let ?p = "CodeActionParams textDocument rng context"
  have "processItems L ?p values ([], []) = Inr (map (resolveAction ?p) values, [])"
    using processItems_ungrouped [OF assms, of ?p "[]" "[]"] by simp
  then show ?thesis
    by (simp add: provideCodeActions_def resolveAction_def new_CodeAction_def
        CodeActionParams_def)
qed

theorem ungrouped_stubs_in_order_witness:
  "fst (provideCodeActions sample_lib \<lparr>failedRequests = ([] :: (request_type \<times> string) list)\<rparr>
         (JObj [(''uri'', JStr ''file:///main.rs'')])
         (JObj [(''start'', JObj [(''line'', JNum 3), (''character'', JNum 0)]),
                (''end'', JObj [(''line'', JNum 3), (''character'', JNum 8)])])
         (JObj [(''diagnostics'', JArr []), (''only'', JArr [JStr ''refactor''])])
         (Fulfilled (Some [JObj [(''title'', JStr ''Add derive''), (''id'', JStr ''a1'')],
                           JObj [(''title'', JStr ''Inline''), (''id'', JNum 2), (''group'', JStr [])]]))) =
   Fulfilled (Value
     [\<lparr>act_title = JStr ''Add derive'', act_kind = JUndefined, act_diagnostics = JUndefined,
       act_edit = JUndefined,
       act_command = Some
         \<lparr>cmd_command = ''rust-analyzer.resolveCodeAction'', cmd_title = JStr ''Add derive'',
          cmd_arguments =
            [JObj [(''id'', JStr ''a1''),
                   (''codeActionParams'',
                    JObj [(''textDocument'', JObj [(''uri'', JStr ''file:///main.rs'')]),
                          (''range'',
                           JObj [(''start'', JObj [(''line'', JNum 3), (''character'', JNum 0)]),
                                 (''end'', JObj [(''line'', JNum 3), (''character'', JNum 8)])]),
                          (''context'',
                           JObj [(''diagnostics'', JArr []),
                                 (''only'', JArr [JStr ''refactor''])])])]]\<rparr>,
       act_isPreferred = JUndefined\<rparr>,
      \<lparr>act_title = JStr ''Inline'', act_kind = JUndefined, act_diagnostics = JUndefined,
       act_edit = JUndefined,
       act_command = Some
         \<lparr>cmd_command = ''rust-analyzer.resolveCodeAction'', cmd_title = JStr ''Inline'',
          cmd_arguments =
            [JObj [(''id'', JNum 2),
                   (''codeActionParams'',
                    JObj [(''textDocument'', JObj [(''uri'', JStr ''file:///main.rs'')]),
                          (''range'',
                           JObj [(''start'', JObj [(''line'', JNum 3), (''character'', JNum 0)]),
                                 (''end'', JObj [(''line'', JNum 3), (''character'', JNum 8)])]),
                          (''context'',
                           JObj [(''diagnostics'', JArr []),
                                 (''only'', JArr [JStr ''refactor''])])])]]\<rparr>,
       act_isPreferred = JUndefined\<rparr>])"
proof -
  have h: "\<forall>v \<in> set [JObj [(''title'', JStr ''Add derive''), (''id'', JStr ''a1'')],
                       JObj [(''title'', JStr ''Inline''), (''id'', JNum 2), (''group'', JStr [])]].
             isStub sample_lib v \<and> \<not> truthy (field v ''group'')"
    by (simp add: isStub_def sample_lib_def isCodeActionWithoutEditsAndCommands_def)
  show ?thesis
    using ungrouped_stubs_in_order [OF h,
        of "\<lparr>failedRequests = ([] :: (request_type \<times> string) list)\<rparr>"
           "JObj [(''uri'', JStr ''file:///main.rs'')]"
           "JObj [(''start'', JObj [(''line'', JNum 3), (''character'', JNum 0)]),
                  (''end'', JObj [(''line'', JNum 3), (''character'', JNum 8)])]"
           "JObj [(''diagnostics'', JArr []), (''only'', JArr [JStr ''refactor''])]"]
    by simp
qed

text \<open>
  Claim C4. An element that carries a command (an object, as a protocol command is),
  with or without an edit, and any element that the guard of line 96 does not recognise
  and that violates the shape of a resolvable stub (a title that is not a string, an edit,
  a command field of any value), makes the pass reject with an assertion failure, wherever
  the element stands in the list; nothing is passed through.
\<close>

theorem malformed_element_raises:
  assumes "v \<in> set values"
    and "truthy (field v ''command'') \<or>
         (\<not> CodeAction_is L v \<and> \<not> isCodeActionWithoutEditsAndCommands L v)"
  shows "\<exists>e. provideCodeActions L client textDocument rng context (Fulfilled (Some values)) =
               (Rejected e, client) \<and>
             (e = AssertionError ''We don't expect to receive commands in CodeActions'' \<or>
              e = AssertionError ''We don't expect edits or commands here'')"
proof -
  have "\<not> accepted L v"
    using assms(2)
    by (auto simp: accepted_def isFull_def isStub_def isCodeActionWithoutEditsAndCommands_def)
  from provideCodeActions_rejected [OF assms(1) this] show ?thesis .
qed

theorem malformed_element_raises_witness:
  "fst (provideCodeActions sample_lib \<lparr>failedRequests = ([] :: (request_type \<times> string) list)\<rparr>
         JNull JNull JNull
         (Fulfilled (Some [JObj [(''title'', JStr ''Add derive'')],
                           JObj [(''title'', JNum 7)]]))) =
     Rejected (AssertionError ''We don't expect edits or commands here'')
   \<and> fst (provideCodeActions sample_lib \<lparr>failedRequests = ([] :: (request_type \<times> string) list)\<rparr>
         JNull JNull JNull
         (Fulfilled (Some [JObj [(''title'', JStr ''Add derive'')],
                           JObj [(''title'', JStr ''Run''),
                                 (''command'', JObj [(''title'', JStr ''Run''),
                                                     (''command'', JStr ''x.run'')])]]))) =
     Rejected (AssertionError ''We don't expect to receive commands in CodeActions'')"
proof -
  let ?bad1 = "JObj [(''title'', JNum 7)]"
  let ?bad2 = "JObj [(''title'', JStr ''Run''),
                     (''command'', JObj [(''title'', JStr ''Run''), (''command'', JStr ''x.run'')])]"
  let ?ok = "JObj [(''title'', JStr ''Add derive'')]"
  have m1: "?bad1 \<in> set [?ok, ?bad1]" and m2: "?bad2 \<in> set [?ok, ?bad2]" by simp_all
  have h1: "truthy (field ?bad1 ''command'') \<or>
        (\<not> CodeAction_is sample_lib ?bad1 \<and> \<not> isCodeActionWithoutEditsAndCommands sample_lib ?bad1)"
    by (simp add: sample_lib_def isCodeActionWithoutEditsAndCommands_def)
  have h2: "truthy (field ?bad2 ''command'') \<or>
        (\<not> CodeAction_is sample_lib ?bad2 \<and> \<not> isCodeActionWithoutEditsAndCommands sample_lib ?bad2)"
    by simp
  show ?thesis
    using malformed_element_raises [OF m1 h1, of "\<lparr>failedRequests = ([] :: (request_type \<times> string) list)\<rparr>" JNull JNull JNull]
      malformed_element_raises [OF m2 h2, of "\<lparr>failedRequests = ([] :: (request_type \<times> string) list)\<rparr>" JNull JNull JNull]
    by (simp add: provideCodeActions_def CodeActionParams_def sample_lib_def assert_def
        isCodeActionWithoutEditsAndCommands_def Let_def)
qed

text \<open>
  Claim C5, as amended. Re-running the pass is a pass-through on recognised code actions
  that carry no command: each is converted by \<^verbatim>\<open>asCodeAction\<close> and the order is kept.
  The actions that the pass itself builds, for a stub and for a group, carry a command,
  and a list that contains an action with a command, read back as raw elements, makes the
  pass reject with an assertion failure.
\<close>

theorem rerun_on_output:
  "((\<forall>v \<in> set values. CodeAction_is L v \<and> \<not> truthy (field v ''command'')) \<longrightarrow>
      provideCodeActions L client textDocument rng context (Fulfilled (Some values)) =
        (Fulfilled (Value (map (asCodeAction L) values)), client))
   \<and> act_command (resolveAction p item) \<noteq> None
   \<and> act_command (groupAction grp payload) \<noteq> None
   \<and> ((\<exists>a \<in> set acts. act_command a \<noteq> None) \<longrightarrow>
      (\<exists>e. provideCodeActions L client textDocument rng context
              (Fulfilled (Some (map asItem acts))) = (Rejected e, client) \<and>
           (e = AssertionError ''We don't expect to receive commands in CodeActions'' \<or>
            e = AssertionError ''We don't expect edits or commands here'')))"
proof (intro conjI impI)
  assume full: "\<forall>v \<in> set values. CodeAction_is L v \<and> \<not> truthy (field v ''command'')"
  then have "\<forall>v \<in> set values. isFull L v" by (simp add: isFull_def)
  from processItems_full [OF this, of "CodeActionParams textDocument rng context" "[]" "[]"]
  show "provideCodeActions L client textDocument rng context (Fulfilled (Some values)) =
        (Fulfilled (Value (map (asCodeAction L) values)), client)"
    by (simp add: provideCodeActions_def)
next
  show "act_command (resolveAction p item) \<noteq> None"
    by (simp add: resolveAction_def)
next
  show "act_command (groupAction grp payload) \<noteq> None"
    by (simp add: groupAction_def)
next
  assume "\<exists>a \<in> set acts. act_command a \<noteq> None"
  then obtain a where a: "a \<in> set acts" "act_command a \<noteq> None" by blast
  have mem: "asItem a \<in> set (map asItem acts)" using a(1) by simp
  have "\<not> accepted L (asItem a)"
    using asItem_command [OF a(2)]
    by (auto simp: accepted_def isFull_def isStub_def isCodeActionWithoutEditsAndCommands_def)
  from provideCodeActions_rejected [OF mem this]
  show "\<exists>e. provideCodeActions L client textDocument rng context
              (Fulfilled (Some (map asItem acts))) = (Rejected e, client) \<and>
           (e = AssertionError ''We don't expect to receive commands in CodeActions'' \<or>
            e = AssertionError ''We don't expect edits or commands here'')" .
qed

theorem rerun_on_output_witness:
  "fst (provideCodeActions sample_lib \<lparr>failedRequests = ([] :: (request_type \<times> string) list)\<rparr>
         JNull JNull JNull
         (Fulfilled (Some [JObj [(''title'', JStr ''Remove unused import''),
                                 (''edit'', JObj [(''changes'', JObj [])])]]))) =
     Fulfilled (Value [\<lparr>act_title = JStr ''Remove unused import'', act_kind = JUndefined,
                        act_diagnostics = JUndefined, act_edit = JObj [(''changes'', JObj [])],
                        act_command = None, act_isPreferred = JUndefined\<rparr>])
   \<and> fst (provideCodeActions sample_lib \<lparr>failedRequests = ([] :: (request_type \<times> string) list)\<rparr>
         JNull JNull JNull
         (Fulfilled (Some (map asItem [groupAction (JStr ''g1'') []])))) =
     Rejected (AssertionError ''We don't expect to receive commands in CodeActions'')"
proof -
  let ?v = "JObj [(''title'', JStr ''Remove unused import''), (''edit'', JObj [(''changes'', JObj [])])]"
  have full: "\<forall>v \<in> set [?v]. CodeAction_is sample_lib v \<and> \<not> truthy (field v ''command'')"
    by (simp add: sample_lib_def)
  have cmd: "\<exists>a \<in> set [groupAction (JStr ''g1'') []]. act_command a \<noteq> None"
    by (simp add: groupAction_def)
  show ?thesis
    using full cmd
      rerun_on_output [of "[?v]" sample_lib
        "\<lparr>failedRequests = ([] :: (request_type \<times> string) list)\<rparr>" JNull JNull JNull
        _ _ _ _ "[groupAction (JStr ''g1'') []]"]
    by (simp add: provideCodeActions_def sample_lib_def assert_def asItem_def groupAction_def
        new_CodeAction_def)
qed

text \<open>
  Claim C5 as stated makes the re-run a no-op on the pass's own output. The pass turns the
  stub \<^verbatim>\<open>{title: "Add derive"}\<close> into an action with the resolve command; on that
  action the guard of line 96 holds and the assertion of line 97 fails.
\<close>

theorem rerun_on_stub_output_raises:
  "fst (provideCodeActions sample_lib \<lparr>failedRequests = ([] :: (request_type \<times> string) list)\<rparr>
         JNull JNull JNull
         (Fulfilled (Some [JObj [(''title'', JStr ''Add derive'')]]))) =
     Fulfilled (Value [resolveAction (CodeActionParams JNull JNull JNull)
                         (JObj [(''title'', JStr ''Add derive'')])])
   \<and> fst (provideCodeActions sample_lib \<lparr>failedRequests = ([] :: (request_type \<times> string) list)\<rparr>
         JNull JNull JNull
         (Fulfilled (Some [asItem (resolveAction (CodeActionParams JNull JNull JNull)
                                     (JObj [(''title'', JStr ''Add derive'')]))]))) =
     Rejected (AssertionError ''We don't expect to receive commands in CodeActions'')"
  by (simp add: provideCodeActions_def sample_lib_def assert_def
      isCodeActionWithoutEditsAndCommands_def Let_def asItem_def resolveAction_def
      new_CodeAction_def)

section \<open>Grouping\<close>

text \<open>
  In the theorems of this section the output slot of an element is counted by the
  pass itself: it is the number of actions that the pass yields for the elements standing
  before it, which is the length of the result when the loop reaches the element.
\<close>

text \<open>
  Claim C10. A stub whose group tag is the empty string is treated as ungrouped, the test
  of line 115 being on the truthiness of the tag. Whatever the result and the map are when
  the loop reaches it, its display action is appended to the result and the map stays as
  it is, so the action joins no entry. In the output of the pass its slot holds that
  action, the plain action with the resolve command.
\<close>

theorem empty_group_tag_ungrouped:
  assumes stub: "isStub L v"
    and tag: "field v ''group'' = JStr []"
    and acc: "\<forall>x \<in> set (pre @ rest). accepted L x"
  shows "processItem L p v (result, groups) = Inr (result @ [resolveAction p v], groups)
    \<and> (\<exists>out_pre out.
         provideCodeActions L client textDocument rng context (Fulfilled (Some pre)) =
           (Fulfilled (Value out_pre), client) \<and>
         provideCodeActions L client textDocument rng context (Fulfilled (Some (pre @ v # rest))) =
           (Fulfilled (Value out), client) \<and>
         length out_pre < length out \<and>
         out ! length out_pre = resolveAction (CodeActionParams textDocument rng context) v)"
proof
  have falsy: "\<not> truthy (field v ''group'')" using tag by simp
  show "processItem L p v (result, groups) = Inr (result @ [resolveAction p v], groups)"
    using processItem_ungrouped [OF stub falsy] .
  let ?p = "CodeActionParams textDocument rng context"
  have "accepted L v" using stub by (simp add: accepted_def)
  then have "\<forall>x \<in> set (pre @ v # rest). accepted L x" using acc by auto
  then obtain r1 g1 r1' g1' r2 g2 where
    pre: "processItems L ?p pre ([], []) = Inr (r1, g1)" and
    wf1: "wf_state ?p (r1, g1)" and
    step: "processItem L ?p v (r1, g1) = Inr (r1', g1')" and
    rest: "processItems L ?p rest (r1', g1') = Inr (r2, g2)" and
    all: "processItems L ?p (pre @ v # rest) ([], []) = Inr (r2, g2)"
    by (rule pass_split [where p = ?p])
  have st: "r1' = r1 @ [resolveAction ?p v]" "g1' = g1"
    using step processItem_ungrouped [OF stub falsy, of ?p r1 g1] by simp_all
  from provideCodeActions_run [OF pre, of client] obtain out_pre where
    op: "length out_pre = length r1"
      "provideCodeActions L client textDocument rng context (Fulfilled (Some pre)) =
         (Fulfilled (Value out_pre), client)"
    by blast
  from provideCodeActions_run [OF all, of client] obtain out where
    o: "collapseGroups g2 r2 = Inr out"
      "provideCodeActions L client textDocument rng context (Fulfilled (Some (pre @ v # rest))) =
         (Fulfilled (Value out), client)"
    by blast
  from plain_slot [OF wf1 rest [unfolded st] o(1)]
  have "length r1 < length out \<and> out ! length r1 = resolveAction ?p v" .
  then show "\<exists>out_pre out.
         provideCodeActions L client textDocument rng context (Fulfilled (Some pre)) =
           (Fulfilled (Value out_pre), client) \<and>
         provideCodeActions L client textDocument rng context (Fulfilled (Some (pre @ v # rest))) =
           (Fulfilled (Value out), client) \<and>
         length out_pre < length out \<and>
         out ! length out_pre = resolveAction (CodeActionParams textDocument rng context) v"
    using op o(2) by auto
qed

theorem empty_group_tag_ungrouped_witness:
  "fst (provideCodeActions sample_lib \<lparr>failedRequests = ([] :: (request_type \<times> string) list)\<rparr>
         JNull JNull JNull
         (Fulfilled (Some [JObj [(''title'', JStr ''Extract''), (''group'', JStr [])],
                           JObj [(''title'', JStr ''Inline''), (''group'', JStr [])]]))) =
     Fulfilled (Value
       [resolveAction (CodeActionParams JNull JNull JNull)
          (JObj [(''title'', JStr ''Extract''), (''group'', JStr [])]),
        resolveAction (CodeActionParams JNull JNull JNull)
          (JObj [(''title'', JStr ''Inline''), (''group'', JStr [])])])"
proof -
  let ?a = "JObj [(''title'', JStr ''Extract''), (''group'', JStr [])]"
  let ?b = "JObj [(''title'', JStr ''Inline''), (''group'', JStr [])]"
  have stub: "isStub sample_lib ?b"
    by (simp add: isStub_def sample_lib_def isCodeActionWithoutEditsAndCommands_def)
  have tag: "field ?b ''group'' = JStr []" by simp
  have acc: "\<forall>x \<in> set ([?a] @ []). accepted sample_lib x"
    by (simp add: accepted_def isStub_def sample_lib_def isCodeActionWithoutEditsAndCommands_def)
  show ?thesis
    using empty_group_tag_ungrouped [OF stub tag acc,
        of "CodeActionParams JNull JNull JNull" "[]" "[]"
           "\<lparr>failedRequests = ([] :: (request_type \<times> string) list)\<rparr>" JNull JNull JNull]
    by (simp add: provideCodeActions_def sample_lib_def assert_def
        isCodeActionWithoutEditsAndCommands_def Let_def)
qed



text \<open>
  Claim C1, as amended. Let \<open>G\<close> be a group tag that is truthy and a primitive value: a
  non-empty string, a number other than zero, or \<^verbatim>\<open>true\<close>. When \<open>k \<ge> 2\<close> stubs of an
  accepted list carry the tag \<open>G\<close>, the output holds at the slot where the tag was
  first seen the action titled \<open>G\<close> whose only invocation is the command
  \<^verbatim>\<open>rust-analyzer.applyActionGroup\<close>, with one argument: the list, in input order, of the
  \<open>k\<close> pairs \<^verbatim>\<open>{label, arguments}\<close> made of the member's title and of the member's first
  invocation argument, which is its \<^verbatim>\<open>{id, codeActionParams}\<close> with the document, range and
  context of the request. No other slot of the output holds a group action titled \<open>G\<close>.
  The converter is a parameter, and for this last part it is taken to attach no command to
  an element that has none.
\<close>

theorem group_composite:
  assumes acc: "\<forall>x \<in> set values. accepted L x"
    and conv: "\<forall>x \<in> set values. isFull L x \<longrightarrow> act_command (asCodeAction L x) = None"
    and tr: "truthy G"
    and prim: "sameValueZero G G"
    and members: "members = filter (hasTag L G) values"
    and k: "2 \<le> length members"
  shows "\<exists>out_pre out.
      provideCodeActions L client textDocument rng context
        (Fulfilled (Some (takeWhile (\<lambda>x. \<not> hasTag L G x) values))) =
        (Fulfilled (Value out_pre), client) \<and>
      provideCodeActions L client textDocument rng context (Fulfilled (Some values)) =
        (Fulfilled (Value out), client) \<and>
      length out_pre < length out \<and>
      out ! length out_pre =
        \<lparr>act_title = G, act_kind = JUndefined, act_diagnostics = JUndefined,
         act_edit = JUndefined,
         act_command = Some
           \<lparr>cmd_command = ''rust-analyzer.applyActionGroup'',
            cmd_title = JStr [],
            cmd_arguments =
              [JArr (map (\<lambda>v. JObj [(''label'', field v ''title''),
                                     (''arguments'',
                                      JObj [(''id'', field v ''id''),
                                            (''codeActionParams'',
                                             JObj [(''textDocument'', textDocument),
                                                   (''range'', rng),
                                                   (''context'', context)])])])
                       members)]\<rparr>,
         act_isPreferred = JUndefined\<rparr> \<and>
      (\<forall>j < length out. j \<noteq> length out_pre \<longrightarrow>
         \<not> (act_title (out ! j) = G \<and>
            (\<exists>c. act_command (out ! j) = Some c \<and>
                 cmd_command c = ''rust-analyzer.applyActionGroup'')))"
proof -
  let ?p = "CodeActionParams textDocument rng context"
  let ?pre = "takeWhile (\<lambda>x. \<not> hasTag L G x) values"
  let ?pay = "\<lambda>v. JObj [(''label'', field v ''title''),
                        (''arguments'', JObj [(''id'', field v ''id''), (''codeActionParams'', ?p)])]"
  obtain m ms where mm: "filter (hasTag L G) values = m # ms"
    using k members by (cases "filter (hasTag L G) values") auto
  from tag_slot [OF acc tr prim mm, of ?p] obtain r1 g1 r2 g2 where
    pre: "processItems L ?p ?pre ([], []) = Inr (r1, g1)" and
    all: "processItems L ?p values ([], []) = Inr (r2, g2)" and
    wf2: "wf_state ?p (r2, g2)" and
    ent: "Map_get g2 G =
            Some \<lparr>index = length r1, items = map (resolveAction ?p) (m # ms)\<rparr>" and
    len: "length r1 < length r2"
    by blast
  from provideCodeActions_run [OF pre, of client] obtain out_pre where
    op: "length out_pre = length r1"
      "provideCodeActions L client textDocument rng context (Fulfilled (Some ?pre)) =
         (Fulfilled (Value out_pre), client)"
    by blast
  from provideCodeActions_run [OF all, of client] obtain out where
    o: "collapseGroups g2 r2 = Inr out" "length out = length r2"
      "provideCodeActions L client textDocument rng context (Fulfilled (Some values)) =
         (Fulfilled (Value out), client)"
    by blast
  let ?e = "\<lparr>index = length r1, items = map (resolveAction ?p) (m # ms)\<rparr>"
  have mem: "(G, ?e) \<in> set g2" using Map_get_SomeD [OF ent] .
  have dist: "distinct (map (index \<circ> snd) g2)" using wf2 by (simp add: wf_state_def)
  have keys: "keys_distinct g2" using wf2 by (simp add: wf_state_def)
  have many: "length (items ?e) \<noteq> 1" using k members mm by auto
  from collapseGroups_at [OF o(1) dist mem] len many obtain payload where
    pl: "groupItems (items ?e) = Inr payload" and
    at: "out ! length r1 = groupAction G payload"
    by auto
  have "payload = map ?pay members"
    using pl groupItems_resolveAction [of ?p "m # ms"] members mm by simp
  then have slot: "out ! length r1 = groupAction G (map ?pay members)" using at by simp
  have unique: "\<not> (act_title (out ! j) = G \<and>
            (\<exists>c. act_command (out ! j) = Some c \<and>
                 cmd_command c = ''rust-analyzer.applyActionGroup''))"
    if j: "j < length out" "j \<noteq> length r1" for j
  proof -
    have jr: "j < length r2" using j o(2) by simp
    from collapseGroups_char [OF o(1) dist jr]
    show ?thesis
    proof (elim disjE exE conjE)
      assume eq: "out ! j = r2 ! j"
      have "r2 ! j \<in> set r2" using jr by simp
      from processItems_origin [OF all this]
      obtain v where v: "v \<in> set values"
        "r2 ! j = resolveAction ?p v \<or> (isFull L v \<and> r2 ! j = asCodeAction L v)"
        by auto
      from v(2) show ?thesis
      proof
        assume "r2 ! j = resolveAction ?p v"
        then show ?thesis using eq by (auto dest: resolveAction_command)
      next
        assume "isFull L v \<and> r2 ! j = asCodeAction L v"
        then show ?thesis using eq conv v(1) by auto
      qed
    next
      fix k' e
      assume ke: "(k', e) \<in> set g2" "index e = j"
        and one: "length (items e) = 1" "out ! j = items e ! 0"
      have "items e ! 0 \<in> set (items e)" using one(1) by (cases "items e") auto
      moreover have "\<forall>a \<in> set (items e). \<exists>v. a = resolveAction ?p v"
        using wf_state_items [OF wf2] ke(1) by auto
      ultimately obtain v where "out ! j = resolveAction ?p v" using one(2) by auto
      then show ?thesis by (auto dest: resolveAction_command)
    next
      fix k' e payload'
      assume ke: "(k', e) \<in> set g2" "index e = j"
        and comp: "out ! j = groupAction k' payload'"
      have "k' \<noteq> G"
      proof
        assume "k' = G"
        then have "Map_get g2 G = Some e"
          using keys_distinct_Map_get [OF keys _ prim, of e] ke(1) by simp
        then have "e = ?e" using ent by simp
        then show False using ke(2) j(2) by simp
      qed
      then show ?thesis using comp by (simp add: groupAction_def new_CodeAction_def)
    qed
  qed
  show ?thesis
    using op o(2,3) len slot unique
    by (intro exI [of _ out_pre] exI [of _ out])
       (simp add: groupAction_def new_CodeAction_def CodeActionParams_def)
qed

theorem group_composite_witness:
  "fst (provideCodeActions sample_lib \<lparr>failedRequests = ([] :: (request_type \<times> string) list)\<rparr>
         (JObj [(''uri'', JStr ''file:///main.rs'')])
         (JObj [(''start'', JNum 3), (''end'', JNum 8)])
         (JObj [(''diagnostics'', JArr [])])
         (Fulfilled (Some [JObj [(''title'', JStr ''B'')],
                           JObj [(''title'', JStr ''A''), (''id'', JNum 1), (''group'', JStr ''g1'')],
                           JObj [(''title'', JStr ''C''), (''id'', JNum 2), (''group'', JStr ''g1'')]]))) =
     Fulfilled (Value
       [\<lparr>act_title = JStr ''B'', act_kind = JUndefined, act_diagnostics = JUndefined,
         act_edit = JUndefined,
         act_command = Some
           \<lparr>cmd_command = ''rust-analyzer.resolveCodeAction'', cmd_title = JStr ''B'',
            cmd_arguments =
              [JObj [(''id'', JUndefined),
                     (''codeActionParams'',
                      JObj [(''textDocument'', JObj [(''uri'', JStr ''file:///main.rs'')]),
                            (''range'', JObj [(''start'', JNum 3), (''end'', JNum 8)]),
                            (''context'', JObj [(''diagnostics'', JArr [])])])]]\<rparr>,
         act_isPreferred = JUndefined\<rparr>,
        \<lparr>act_title = JStr ''g1'', act_kind = JUndefined, act_diagnostics = JUndefined,
         act_edit = JUndefined,
         act_command = Some
           \<lparr>cmd_command = ''rust-analyzer.applyActionGroup'', cmd_title = JStr [],
            cmd_arguments =
              [JArr
                [JObj [(''label'', JStr ''A''),
                       (''arguments'',
                        JObj [(''id'', JNum 1),
                              (''codeActionParams'',
                               JObj [(''textDocument'', JObj [(''uri'', JStr ''file:///main.rs'')]),
                                     (''range'', JObj [(''start'', JNum 3), (''end'', JNum 8)]),
                                     (''context'', JObj [(''diagnostics'', JArr [])])])])],
                 JObj [(''label'', JStr ''C''),
                       (''arguments'',
                        JObj [(''id'', JNum 2),
                              (''codeActionParams'',
                               JObj [(''textDocument'', JObj [(''uri'', JStr ''file:///main.rs'')]),
                                     (''range'', JObj [(''start'', JNum 3), (''end'', JNum 8)]),
                                     (''context'', JObj [(''diagnostics'', JArr [])])])])]]]\<rparr>,
         act_isPreferred = JUndefined\<rparr>])
   \<and> fst (provideCodeActions sample_lib \<lparr>failedRequests = ([] :: (request_type \<times> string) list)\<rparr>
         (JObj [(''uri'', JStr ''file:///main.rs'')])
         (JObj [(''start'', JNum 3), (''end'', JNum 8)])
         (JObj [(''diagnostics'', JArr [])])
         (Fulfilled (Some [JObj [(''title'', JStr ''A''), (''group'', JNum 1)],
                           JObj [(''title'', JStr ''C''), (''group'', JNum 1)]]))) =
     Fulfilled (Value
       [\<lparr>act_title = JNum 1, act_kind = JUndefined, act_diagnostics = JUndefined,
         act_edit = JUndefined,
         act_command = Some
           \<lparr>cmd_command = ''rust-analyzer.applyActionGroup'', cmd_title = JStr [],
            cmd_arguments =
              [JArr
                [JObj [(''label'', JStr ''A''),
                       (''arguments'',
                        JObj [(''id'', JUndefined),
                              (''codeActionParams'',
                               JObj [(''textDocument'', JObj [(''uri'', JStr ''file:///main.rs'')]),
                                     (''range'', JObj [(''start'', JNum 3), (''end'', JNum 8)]),
                                     (''context'', JObj [(''diagnostics'', JArr [])])])])],
                 JObj [(''label'', JStr ''C''),
                       (''arguments'',
                        JObj [(''id'', JUndefined),
                              (''codeActionParams'',
                               JObj [(''textDocument'', JObj [(''uri'', JStr ''file:///main.rs'')]),
                                     (''range'', JObj [(''start'', JNum 3), (''end'', JNum 8)]),
                                     (''context'', JObj [(''diagnostics'', JArr [])])])])]]]\<rparr>,
         act_isPreferred = JUndefined\<rparr>])"
proof -
  let ?b = "JObj [(''title'', JStr ''B'')]"
  let ?a = "JObj [(''title'', JStr ''A''), (''id'', JNum 1), (''group'', JStr ''g1'')]"
  let ?c = "JObj [(''title'', JStr ''C''), (''id'', JNum 2), (''group'', JStr ''g1'')]"
  let ?a1 = "JObj [(''title'', JStr ''A''), (''group'', JNum 1)]"
  let ?c1 = "JObj [(''title'', JStr ''C''), (''group'', JNum 1)]"
  let ?client = "\<lparr>failedRequests = ([] :: (request_type \<times> string) list)\<rparr>"
  let ?td = "JObj [(''uri'', JStr ''file:///main.rs'')]"
  let ?rng = "JObj [(''start'', JNum 3), (''end'', JNum 8)]"
  let ?ctx = "JObj [(''diagnostics'', JArr [])]"
  have acc: "\<forall>x \<in> set [?b, ?a, ?c]. accepted sample_lib x"
    by (simp add: accepted_def isStub_def sample_lib_def isCodeActionWithoutEditsAndCommands_def)
  have conv: "\<forall>x \<in> set [?b, ?a, ?c].
      isFull sample_lib x \<longrightarrow> act_command (asCodeAction sample_lib x) = None"
    by (simp add: sample_lib_def new_CodeAction_def)
  have tr: "truthy (JStr ''g1'')" and prim: "sameValueZero (JStr ''g1'') (JStr ''g1'')"
    by simp_all
  have members: "[?a, ?c] = filter (hasTag sample_lib (JStr ''g1'')) [?b, ?a, ?c]"
    by (simp add: hasTag_def isStub_def sample_lib_def isCodeActionWithoutEditsAndCommands_def)
  have k: "2 \<le> length [?a, ?c]" by simp
  have acc1: "\<forall>x \<in> set [?a1, ?c1]. accepted sample_lib x"
    by (simp add: accepted_def isStub_def sample_lib_def isCodeActionWithoutEditsAndCommands_def)
  have conv1: "\<forall>x \<in> set [?a1, ?c1].
      isFull sample_lib x \<longrightarrow> act_command (asCodeAction sample_lib x) = None"
    by (simp add: sample_lib_def new_CodeAction_def)
  have tr1: "truthy (JNum 1)" and prim1: "sameValueZero (JNum 1) (JNum 1)"
    by simp_all
  have members1: "[?a1, ?c1] = filter (hasTag sample_lib (JNum 1)) [?a1, ?c1]"
    by (simp add: hasTag_def isStub_def sample_lib_def isCodeActionWithoutEditsAndCommands_def)
  have k1: "2 \<le> length [?a1, ?c1]" by simp
  show ?thesis
    using group_composite [OF acc conv tr prim members k, of ?client ?td ?rng ?ctx]
      group_composite [OF acc1 conv1 tr1 prim1 members1 k1, of ?client ?td ?rng ?ctx]
    by (simp add: provideCodeActions_def sample_lib_def assert_def groupItem_def
        resolveAction_def new_CodeAction_def groupAction_def CodeActionParams_def
        isCodeActionWithoutEditsAndCommands_def Let_def)
qed

text \<open>
  A tag that is an object is a key of its own for each element, the map comparing objects
  by reference: two stubs with equal object tags stay two plain actions.
\<close>

lemma object_tags_not_grouped:
  "fst (provideCodeActions sample_lib \<lparr>failedRequests = ([] :: (request_type \<times> string) list)\<rparr>
         JNull JNull JNull
         (Fulfilled (Some
            [JObj [(''title'', JStr ''Extract''), (''group'', JObj [(''name'', JStr ''g1'')])],
             JObj [(''title'', JStr ''Inline''), (''group'', JObj [(''name'', JStr ''g1'')])]]))) =
     Fulfilled (Value
       [resolveAction (CodeActionParams JNull JNull JNull) (JObj [(''title'', JStr ''Extract'')]),
        resolveAction (CodeActionParams JNull JNull JNull) (JObj [(''title'', JStr ''Inline'')])])"
  by (simp add: provideCodeActions_def sample_lib_def assert_def resolveAction_def
      isCodeActionWithoutEditsAndCommands_def Let_def)

text \<open>
  Claim C1 as stated holds for every group tag. Two stubs that carry the same tag, the
  empty string, are not collected: the test of line 115 is on the truthiness of the tag,
  and the output is their two plain resolve actions, with no group action.
\<close>

theorem same_empty_tag_not_grouped:
  "length (filter (hasTag sample_lib (JStr []))
             [JObj [(''title'', JStr ''Extract''), (''id'', JNum 1), (''group'', JStr [])],
              JObj [(''title'', JStr ''Inline''), (''id'', JNum 2), (''group'', JStr [])]]) = 2
   \<and> fst (provideCodeActions sample_lib \<lparr>failedRequests = ([] :: (request_type \<times> string) list)\<rparr>
         (JObj [(''uri'', JStr ''file:///main.rs'')])
         (JObj [(''start'', JNum 3), (''end'', JNum 8)])
         (JObj [(''diagnostics'', JArr [])])
         (Fulfilled (Some
            [JObj [(''title'', JStr ''Extract''), (''id'', JNum 1), (''group'', JStr [])],
             JObj [(''title'', JStr ''Inline''), (''id'', JNum 2), (''group'', JStr [])]]))) =
     Fulfilled (Value
       [\<lparr>act_title = JStr ''Extract'', act_kind = JUndefined, act_diagnostics = JUndefined,
         act_edit = JUndefined,
         act_command = Some
           \<lparr>cmd_command = ''rust-analyzer.resolveCodeAction'', cmd_title = JStr ''Extract'',
            cmd_arguments =
              [JObj [(''id'', JNum 1),
                     (''codeActionParams'',
                      JObj [(''textDocument'', JObj [(''uri'', JStr ''file:///main.rs'')]),
                            (''range'', JObj [(''start'', JNum 3), (''end'', JNum 8)]),
                            (''context'', JObj [(''diagnostics'', JArr [])])])]]\<rparr>,
         act_isPreferred = JUndefined\<rparr>,
        \<lparr>act_title = JStr ''Inline'', act_kind = JUndefined, act_diagnostics = JUndefined,
         act_edit = JUndefined,
         act_command = Some
           \<lparr>cmd_command = ''rust-analyzer.resolveCodeAction'', cmd_title = JStr ''Inline'',
            cmd_arguments =
              [JObj [(''id'', JNum 2),
                     (''codeActionParams'',
                      JObj [(''textDocument'', JObj [(''uri'', JStr ''file:///main.rs'')]),
                            (''range'', JObj [(''start'', JNum 3), (''end'', JNum 8)]),
                            (''context'', JObj [(''diagnostics'', JArr [])])])]]\<rparr>,
         act_isPreferred = JUndefined\<rparr>])"
  by (simp add: hasTag_def isStub_def provideCodeActions_def sample_lib_def assert_def
      resolveAction_def new_CodeAction_def CodeActionParams_def
      isCodeActionWithoutEditsAndCommands_def Let_def)

end
